theory Spec2Isabelle
  imports Complex_Main "HOL-Library.Word" "HOL-Library.Multiset"
begin

section \<open>The distributed dual-tree task queue\<close>

text \<open>
  A shallow embedding of the class \<^verbatim>\<open>DistributedDualtreeTaskQueue\<close> of
  \<^verbatim>\<open>core/parallel/distributed_dualtree_task_queue.h\<close>. Every member function is a
  function from the queue (a record of the member variables) to the queue it leaves
  behind; what C++ leaves undefined (an index past the end of a vector, a null pointer
  followed, the top of an empty heap) is a value of type \<open>error\<close>. The re-entrant lock
  every member function takes is not modelled: the functions are the bodies run under
  it, one at a time. The lines written by \<^verbatim>\<open>printf\<close> in \<^verbatim>\<open>Synchronize\<close> and
  \<^verbatim>\<open>PushNewQueue\<close> are left out.
\<close>

subsection \<open>Data\<close>

text \<open>\<^verbatim>\<open>unsigned long int\<close>: 64 bits, arithmetic modulo \<open>2 ^ 64\<close>.\<close>

type_synonym u64 = "64 word"

text \<open>
  \<^verbatim>\<open>int\<close>: 32 bits in two's complement. \<open>sint\<close> reads the value, and the source's
  comparisons of two \<^verbatim>\<open>int\<close> are comparisons of their \<open>sint\<close>. C++ leaves the
  overflow of \<^verbatim>\<open>int\<close> undefined; here \<open>+\<close> and \<open>-\<close> wrap around at \<open>2 ^ 31\<close>, as the
  compiled code does on two's complement hardware. An index into a vector is a natural
  number; where the source writes it to an \<^verbatim>\<open>int\<close> it is \<open>of_nat\<close> of the index.
\<close>

type_synonym i32 = "32 word"

datatype error = IndexOutOfRange | NullPointer | EmptyHeap

text \<open>
  The tree, its bounds and the metric belong to collaborators. A bound is an opaque
  value; the metric is a parameter (see \<open>Env\<close>). A node knows the range of points it
  covers, its bound and its two children, if it has any.
\<close>

type_synonym Bound = nat

datatype TreeType =
  TreeNode (node_begin: i32) (node_count: i32) (node_bound: Bound)
    (node_children: "(TreeType \<times> TreeType) option")

definition is_leaf :: "TreeType \<Rightarrow> bool" where
  "is_leaf n = (node_children n = None)"

text \<open>
  A subtable, with the members the queue reads and writes: \<^verbatim>\<open>table()->rank()\<close>,
  \<^verbatim>\<open>originating_rank()\<close>, \<^verbatim>\<open>start_node()\<close>, \<^verbatim>\<open>cache_block_id()\<close>, and the data
  that \<^verbatim>\<open>Copy\<close> overwrites (the query result), an opaque value here.
\<close>

record SubTable =
  table_rank :: i32
  originating_rank :: i32
  start_node :: TreeType
  cache_block_id :: i32
  query_result :: int

text \<open>
  Modelled from the spec: \<^verbatim>\<open>SubTable::subtable_id\<close> is missing from the sources. The
  glossary identifies a subtree by (rank, begin, count).
\<close>

definition subtable_id :: "SubTable \<Rightarrow> i32 \<times> i32 \<times> i32" where
  "subtable_id t = (table_rank t, node_begin (start_node t), node_count (start_node t))"

text \<open>
  Modelled from the spec: \<^verbatim>\<open>SubTable::includes\<close> is missing from the sources. The
  stored subtree includes the received one when its begin/count range covers the
  received range.
\<close>

definition subtable_includes :: "SubTable \<Rightarrow> SubTable \<Rightarrow> bool" where
  "subtable_includes a b =
     (sint (node_begin (start_node a)) \<le> sint (node_begin (start_node b)) \<and>
      sint (node_begin (start_node b)) + sint (node_count (start_node b))
        \<le> sint (node_begin (start_node a)) + sint (node_count (start_node a)))"

text \<open>
  Modelled from the spec: \<^verbatim>\<open>SubTable::Copy\<close> is missing from the sources. It
  overwrites the mutable data of the stored subtree with the received one; the identity
  stays, since \<^verbatim>\<open>Synchronize\<close> compares it with the received identity afterwards.
\<close>

definition Copy :: "SubTable \<Rightarrow> SubTable \<Rightarrow> SubTable" where
  "Copy a b = a\<lparr>query_result := query_result b\<rparr>"

text \<open>
  Modelled from the spec: \<^verbatim>\<open>SubTable::Alias\<close> is missing from the sources. The new
  subtable is a view of the same subtable: every member the queue reads is the same.
\<close>

definition Alias :: "SubTable \<Rightarrow> SubTable" where
  "Alias t = t"

text \<open>
  A task pairs a copy of the query subtable with a reference subtable and a priority
  (a \<^verbatim>\<open>double\<close> in the source; a real number here: rounding and NaN are not
  modelled).
\<close>

record Task =
  task_query_subtable :: SubTable
  task_reference_subtable :: SubTable
  task_priority :: real

text \<open>
  Modelled from the spec: \<^verbatim>\<open>TaskType::work\<close> is missing from the sources. The work
  of a task is the count of the query subtree times the count of the reference subtree.
\<close>

definition work :: "Task \<Rightarrow> u64" where
  "work t =
     word_of_int (sint (node_count (start_node (task_query_subtable t))) *
                  sint (node_count (start_node (task_reference_subtable t))))"

text \<open>
  Modelled from the spec: \<^verbatim>\<open>TaskType::reference_subtable_cache_block_id\<close> is missing
  from the sources. It is the cache block of the task's reference subtable.
\<close>

definition reference_subtable_cache_block_id :: "Task \<Rightarrow> i32" where
  "reference_subtable_cache_block_id t = cache_block_id (task_reference_subtable t)"

text \<open>
  Modelled from the spec: the priority queue type is a template parameter, missing from
  the sources. It is a max-heap keyed by priority, with \<^verbatim>\<open>push\<close>, \<^verbatim>\<open>top\<close>,
  \<^verbatim>\<open>pop\<close> and \<^verbatim>\<open>size\<close>; ties are broken deterministically. Here: the tasks in
  descending order of priority, a new task behind those of equal priority. The top is
  the head. The top of an empty heap is undefined.
\<close>

type_synonym TaskPriorityQueue = "Task list"

fun heap_push :: "Task \<Rightarrow> TaskPriorityQueue \<Rightarrow> TaskPriorityQueue" where
  "heap_push t [] = [t]"
| "heap_push t (x # xs) =
     (if task_priority x < task_priority t then t # x # xs else x # heap_push t xs)"

text \<open>
  Modelled from the spec: \<^verbatim>\<open>top\<close> of the priority queue, the task of highest
  priority; undefined on an empty queue.
\<close>

definition heap_top :: "TaskPriorityQueue \<Rightarrow> error + Task" where
  "heap_top h = (case h of [] \<Rightarrow> Inl EmptyHeap | t # _ \<Rightarrow> Inr t)"

text \<open>
  Modelled from the spec: \<^verbatim>\<open>pop\<close> of the priority queue removes the top; undefined
  on an empty queue.
\<close>

definition heap_pop :: "TaskPriorityQueue \<Rightarrow> error + TaskPriorityQueue" where
  "heap_pop h = (case h of [] \<Rightarrow> Inl EmptyHeap | _ # ts \<Rightarrow> Inr ts)"

text \<open>The order a heap built by \<open>heap_push\<close> keeps: no task before one of higher priority.\<close>

definition heap_sorted :: "TaskPriorityQueue \<Rightarrow> bool" where
  "heap_sorted h = sorted_wrt (\<lambda>a b. task_priority b \<le> task_priority a) h"

text \<open>
  Modelled from the spec: \<^verbatim>\<open>DisjointIntIntervals\<close> is missing from the sources. It is
  a set of half-open integer intervals keyed by a rank: here the intervals
  (rank, begin, end) in the order recorded. The copy constructor makes a deep copy: a
  value is its own copy.
\<close>

type_synonym DisjointIntIntervals = "(i32 \<times> i32 \<times> i32) list"

text \<open>
  Modelled from the spec: two half-open intervals are not disjoint when they are under
  one rank and share a point.
\<close>

fun overlaps :: "i32 \<times> i32 \<times> i32 \<Rightarrow> i32 \<times> i32 \<times> i32 \<Rightarrow> bool" where
  "overlaps (r1, b1, e1) (r2, b2, e2) =
     (r1 = r2 \<and> max (sint b1) (sint b2) < min (sint e1) (sint e2))"

text \<open>
  Modelled from the spec: \<^verbatim>\<open>DisjointIntIntervals::Insert\<close> returns true and records
  the interval iff it is disjoint from all the intervals recorded under that rank;
  otherwise it returns false and changes nothing.
\<close>

definition Insert :: "i32 \<times> i32 \<times> i32 \<Rightarrow> DisjointIntIntervals \<Rightarrow> bool \<times> DisjointIntIntervals"
  where
  "Insert g ivs = (if list_ex (overlaps g) ivs then (False, ivs) else (True, ivs @ [g]))"

text \<open>
  A checked-out query subtable (\<^verbatim>\<open>QuerySubTableLock\<close>), with the members the queue
  reads and writes as its friend. The assigned work is a pointer that may be null.
\<close>

record QuerySubTableLock =
  lock_assigned_work :: "DisjointIntIntervals option"
  locked_mpi_rank :: i32
  lock_query_subtable :: SubTable
  lock_remaining_work_for_query_subtable :: u64
  lock_task :: TaskPriorityQueue

text \<open>
  The table exchange is a collaborator. The calls the queue makes to it are recorded
  in order; what it answers is a parameter (see \<open>Env\<close>).
\<close>

datatype exchange_call =
  QueueFlushRequest SubTable
  | LockCache i32 i32
  | ExchangePushCompletedComputation u64

text \<open>
  The member variables. The three vectors of \<^verbatim>\<open>intrusive_ptr\<close> hold the objects
  themselves; a pointer of \<^verbatim>\<open>assigned_work_\<close> may be null (\<open>None\<close>), since
  \<^verbatim>\<open>GrowSlots_\<close> leaves it so. No object is shared between two slots: each one is
  made by \<^verbatim>\<open>new\<close> for one slot and moved, never shared.
\<close>

record DistributedDualtreeTaskQueue =
  assigned_work :: "DisjointIntIntervals option list"
  checked_out_query_subtables :: "QuerySubTableLock list"
  num_exported_query_subtables :: i32
  num_imported_query_subtables :: i32
  num_remaining_tasks :: i32
  num_threads :: i32
  query_subtables :: "SubTable list"
  remaining_work_for_query_subtables :: "u64 list"
  table_exchange :: "exchange_call list"
  tasks :: "TaskPriorityQueue list"
  remaining_global_computation :: u64
  remaining_local_computation :: u64

text \<open>
  What the surroundings answer: the rank of this process (\<^verbatim>\<open>world.rank()\<close>), the
  metric (the midpoint of the squared distance range of two bounds), and the table
  exchange's \<^verbatim>\<open>process_rank\<close>, \<^verbatim>\<open>FindSubTable\<close> (null when the cache does not
  hold the block), the rank of its local table and \<^verbatim>\<open>FindByBeginCount\<close>.
\<close>

record Env =
  world_rank :: i32
  metric_mid :: "Bound \<Rightarrow> Bound \<Rightarrow> real"
  process_rank :: "i32 \<Rightarrow> i32"
  FindSubTable :: "i32 \<Rightarrow> SubTable option"
  local_table_rank :: i32
  FindByBeginCount :: "i32 \<Rightarrow> i32 \<Rightarrow> TreeType"

definition process_rank_favor_factor :: i32 where
  "process_rank_favor_factor = 0"

subsection \<open>The constructor\<close>

definition Constructor :: DistributedDualtreeTaskQueue where
  "Constructor =
     \<lparr>assigned_work = [], checked_out_query_subtables = [],
      num_exported_query_subtables = 0, num_imported_query_subtables = 0,
      num_remaining_tasks = 0, num_threads = 1, query_subtables = [],
      remaining_work_for_query_subtables = [], table_exchange = [], tasks = [],
      remaining_global_computation = 0, remaining_local_computation = 0\<rparr>"

subsection \<open>Growing and evicting slots\<close>

text \<open>
  \<^verbatim>\<open>GrowSlots_\<close>: \<^verbatim>\<open>resize\<close> appends a null pointer to \<^verbatim>\<open>assigned_work_\<close> and a
  zero to the remaining work; the other two vectors get a fresh subtable and a fresh
  heap. The members of a fresh \<^verbatim>\<open>SubTableType()\<close> are the parameter \<open>fresh\<close>:
  \<^verbatim>\<open>PushNewQueue\<close>, the one caller, overwrites it at once.
\<close>

definition GrowSlots :: "SubTable \<Rightarrow> DistributedDualtreeTaskQueue \<Rightarrow> DistributedDualtreeTaskQueue"
  where
  "GrowSlots fresh q =
     q\<lparr>assigned_work := assigned_work q @ [None],
       query_subtables := query_subtables q @ [fresh],
       remaining_work_for_query_subtables := remaining_work_for_query_subtables q @ [0],
       tasks := tasks q @ [[]]\<rparr>"

text \<open>Swap-with-last on one vector: \<^verbatim>\<open>v[i] = v.back(); v.pop_back()\<close>.\<close>

definition swap_with_last :: "nat \<Rightarrow> 'a list \<Rightarrow> 'a list" where
  "swap_with_last i v = butlast (v[i := last v])"

definition Evict :: "nat \<Rightarrow> DistributedDualtreeTaskQueue \<Rightarrow> error + DistributedDualtreeTaskQueue"
  where
  "Evict probe_index q =
     (if probe_index < length (assigned_work q) \<and>
         probe_index < length (query_subtables q) \<and>
         probe_index < length (remaining_work_for_query_subtables q) \<and>
         probe_index < length (tasks q)
      then Inr (q\<lparr>assigned_work := swap_with_last probe_index (assigned_work q),
                  query_subtables := swap_with_last probe_index (query_subtables q),
                  remaining_work_for_query_subtables :=
                    swap_with_last probe_index (remaining_work_for_query_subtables q),
                  tasks := swap_with_last probe_index (tasks q)\<rparr>)
      else Inl IndexOutOfRange)"

definition Flush :: "nat \<Rightarrow> DistributedDualtreeTaskQueue \<Rightarrow> error + DistributedDualtreeTaskQueue"
  where
  "Flush probe_index q =
     (if probe_index < length (query_subtables q)
      then Evict probe_index
             (q\<lparr>table_exchange :=
                   table_exchange q @ [QueueFlushRequest (query_subtables q ! probe_index)],
                num_imported_query_subtables := num_imported_query_subtables q - 1\<rparr>)
      else Inl IndexOutOfRange)"

subsection \<open>Work intake\<close>

text \<open>
  \<^verbatim>\<open>PushNewQueue\<close> returns \<^verbatim>\<open>tasks_.size() - 1\<close> and the queue it leaves.
\<close>

definition PushNewQueue ::
  "SubTable \<Rightarrow> i32 \<Rightarrow> SubTable \<Rightarrow> DistributedDualtreeTaskQueue
     \<Rightarrow> nat \<times> DistributedDualtreeTaskQueue" where
  "PushNewQueue fresh originating_rank_in query_subtable_in q =
     (let q1 = GrowSlots fresh q;
          q2 = q1\<lparr>query_subtables :=
                     (query_subtables q1)[length (query_subtables q1) - 1 :=
                        (Alias query_subtable_in)\<lparr>originating_rank := originating_rank_in\<rparr>]\<rparr>;
          q3 = q2\<lparr>remaining_work_for_query_subtables :=
                     (remaining_work_for_query_subtables q2)
                       [length (remaining_work_for_query_subtables q2) - 1 := 0]\<rparr>;
          q4 = q3\<lparr>num_imported_query_subtables := num_imported_query_subtables q3 + 1\<rparr>
      in (length (tasks q4) - 1, q4))"

text \<open>
  The task \<^verbatim>\<open>PushTask\<close> makes for a query subtable and a reference subtable: the
  priority is minus the midpoint of the squared distance range of the two start nodes'
  bounds, minus the favor factor times the process rank of the reference's table.
\<close>

definition new_task :: "Env \<Rightarrow> SubTable \<Rightarrow> SubTable \<Rightarrow> Task" where
  "new_task env query_subtable reference_subtable =
     \<lparr>task_query_subtable = query_subtable,
      task_reference_subtable = reference_subtable,
      task_priority =
        - metric_mid env (node_bound (start_node query_subtable))
                         (node_bound (start_node reference_subtable))
        - real_of_int (sint (process_rank_favor_factor *
                             process_rank env (table_rank reference_subtable)))\<rparr>"

definition PushTask ::
  "Env \<Rightarrow> nat \<Rightarrow> SubTable \<Rightarrow> DistributedDualtreeTaskQueue
     \<Rightarrow> error + DistributedDualtreeTaskQueue" where
  "PushTask env push_index reference_subtable q =
     (if push_index < length (query_subtables q) \<and> push_index < length (tasks q)
      then (let t = new_task env (query_subtables q ! push_index) reference_subtable
            in Inr (q\<lparr>tasks := (tasks q)[push_index := heap_push t (tasks q ! push_index)],
                       num_remaining_tasks := num_remaining_tasks q + 1,
                       remaining_local_computation :=
                         remaining_local_computation q + work t\<rparr>))
      else Inl IndexOutOfRange)"

subsection \<open>Checking out and returning a query subtable\<close>

text \<open>
  Modelled from the spec: \<^verbatim>\<open>QuerySubTableLock::CheckOut_\<close> is missing from the
  sources. The lock-checkout of a slot moves the slot's state out of the active vectors
  into a fresh checked-out entry tagged with the given rank and increments the number
  of exported query subtables (the spec's dequeue: ``moving the slot's state into a new
  CheckedOutEntry and incrementing \<^verbatim>\<open>num_exported\<close>''; its \<^verbatim>\<open>return_to\<close> decrements
  it again); a slot leaves the active vectors by swap-with-last. The entry is the one
  \<^verbatim>\<open>LockQuerySubTable\<close> has pushed to the front of the list.
\<close>

definition CheckOut ::
  "nat \<Rightarrow> i32 \<Rightarrow> DistributedDualtreeTaskQueue \<Rightarrow> error + DistributedDualtreeTaskQueue" where
  "CheckOut probe_index remote_mpi_rank_in q =
     (if probe_index < length (assigned_work q) \<and>
         probe_index < length (query_subtables q) \<and>
         probe_index < length (remaining_work_for_query_subtables q) \<and>
         probe_index < length (tasks q)
      then Evict probe_index
             (q\<lparr>checked_out_query_subtables :=
                   \<lparr>lock_assigned_work = assigned_work q ! probe_index,
                    locked_mpi_rank = remote_mpi_rank_in,
                    lock_query_subtable = query_subtables q ! probe_index,
                    lock_remaining_work_for_query_subtable =
                      remaining_work_for_query_subtables q ! probe_index,
                    lock_task = tasks q ! probe_index\<rparr>
                   # checked_out_query_subtables q,
                num_exported_query_subtables := num_exported_query_subtables q + 1\<rparr>)
      else Inl IndexOutOfRange)"

text \<open>
  \<^verbatim>\<open>LockQuerySubTable\<close> returns \<^verbatim>\<open>checked_out_query_subtables_.begin()\<close>: the
  handle is the position in the list, 0.
\<close>

definition LockQuerySubTable ::
  "nat \<Rightarrow> i32 \<Rightarrow> DistributedDualtreeTaskQueue
     \<Rightarrow> error + (nat \<times> DistributedDualtreeTaskQueue)" where
  "LockQuerySubTable probe_index remote_mpi_rank_in q =
     (case CheckOut probe_index remote_mpi_rank_in q of
        Inl e \<Rightarrow> Inl e
      | Inr q' \<Rightarrow> Inr (0, q'))"

text \<open>
  Modelled from the spec: \<^verbatim>\<open>QuerySubTableLock::Return_\<close> is missing from the
  sources. It moves the entry's state back into a new active slot and decrements the
  number of exported query subtables.
\<close>

definition Return ::
  "QuerySubTableLock \<Rightarrow> DistributedDualtreeTaskQueue \<Rightarrow> DistributedDualtreeTaskQueue" where
  "Return e q =
     q\<lparr>assigned_work := assigned_work q @ [lock_assigned_work e],
       query_subtables := query_subtables q @ [lock_query_subtable e],
       remaining_work_for_query_subtables :=
         remaining_work_for_query_subtables q @ [lock_remaining_work_for_query_subtable e],
       tasks := tasks q @ [lock_task e],
       num_exported_query_subtables := num_exported_query_subtables q - 1\<rparr>"

text \<open>Erasing the node at a position of the list.\<close>

definition erase :: "nat \<Rightarrow> 'a list \<Rightarrow> 'a list" where
  "erase k xs = take k xs @ drop (Suc k) xs"

definition ReturnQuerySubTable ::
  "nat \<Rightarrow> DistributedDualtreeTaskQueue \<Rightarrow> error + DistributedDualtreeTaskQueue" where
  "ReturnQuerySubTable query_subtable_lock q =
     (if query_subtable_lock < length (checked_out_query_subtables q)
      then (let q1 = Return (checked_out_query_subtables q ! query_subtable_lock) q
            in Inr (q1\<lparr>checked_out_query_subtables :=
                         erase query_subtable_lock (checked_out_query_subtables q1)\<rparr>))
      else Inl IndexOutOfRange)"

text \<open>
  \<^verbatim>\<open>Synchronize\<close>: the loop over the checked-out list, with the entries already
  passed in \<open>passed\<close>. It stops at the first entry that includes the received subtable.
\<close>

fun Synchronize_loop ::
  "SubTable \<Rightarrow> QuerySubTableLock list \<Rightarrow> QuerySubTableLock list
     \<Rightarrow> DistributedDualtreeTaskQueue \<Rightarrow> DistributedDualtreeTaskQueue" where
  "Synchronize_loop received passed [] q = q"
| "Synchronize_loop received passed (e # rest) q =
     (if subtable_includes (lock_query_subtable e) received
      then (let e' = e\<lparr>lock_query_subtable := Copy (lock_query_subtable e) received\<rparr>
            in if subtable_id received = subtable_id (lock_query_subtable e')
               then q\<lparr>assigned_work := assigned_work q @ [lock_assigned_work e'],
                      query_subtables := query_subtables q @ [lock_query_subtable e'],
                      remaining_work_for_query_subtables :=
                        remaining_work_for_query_subtables q
                          @ [lock_remaining_work_for_query_subtable e'],
                      tasks := tasks q @ [lock_task e'],
                      checked_out_query_subtables := passed @ rest,
                      num_exported_query_subtables := num_exported_query_subtables q - 1\<rparr>
               else q\<lparr>checked_out_query_subtables := passed @ e' # rest\<rparr>)
      else Synchronize_loop received (passed @ [e]) rest q)"

definition Synchronize ::
  "SubTable \<Rightarrow> DistributedDualtreeTaskQueue \<Rightarrow> DistributedDualtreeTaskQueue" where
  "Synchronize received_query_subtable_in q =
     Synchronize_loop received_query_subtable_in [] (checked_out_query_subtables q) q"

subsection \<open>The counters of remaining computation\<close>

definition decrement_remaining_local_computation ::
  "u64 \<Rightarrow> DistributedDualtreeTaskQueue \<Rightarrow> DistributedDualtreeTaskQueue" where
  "decrement_remaining_local_computation decrement q =
     q\<lparr>remaining_local_computation := remaining_local_computation q - decrement\<rparr>"

definition decrement_remaining_global_computation ::
  "u64 \<Rightarrow> DistributedDualtreeTaskQueue \<Rightarrow> DistributedDualtreeTaskQueue" where
  "decrement_remaining_global_computation decrement q =
     q\<lparr>remaining_global_computation := remaining_global_computation q - decrement\<rparr>"

text \<open>
  \<^verbatim>\<open>push_completed_computation\<close> for one checked-out query subtable; the iterator is
  the position in the list.
\<close>

definition push_completed_computation_lock ::
  "u64 \<Rightarrow> u64 \<Rightarrow> nat \<Rightarrow> DistributedDualtreeTaskQueue
     \<Rightarrow> error + DistributedDualtreeTaskQueue" where
  "push_completed_computation_lock reference_count_in quantity_in query_subtable_lock q =
     (let q1 = q\<lparr>remaining_global_computation :=
                    remaining_global_computation q - quantity_in,
                  table_exchange :=
                    table_exchange q @ [ExchangePushCompletedComputation quantity_in]\<rparr>
      in if query_subtable_lock < length (checked_out_query_subtables q1)
         then (let e = checked_out_query_subtables q1 ! query_subtable_lock
               in Inr (q1\<lparr>checked_out_query_subtables :=
                            (checked_out_query_subtables q1)[query_subtable_lock :=
                               e\<lparr>lock_remaining_work_for_query_subtable :=
                                    lock_remaining_work_for_query_subtable e
                                      - reference_count_in\<rparr>]\<rparr>))
         else Inl IndexOutOfRange)"

text \<open>
  \<^verbatim>\<open>push_completed_computation\<close> for all query subtables: the loop runs over the
  indices of \<^verbatim>\<open>query_subtables_\<close> and writes to the vector of remaining work.
\<close>

definition push_completed_computation ::
  "u64 \<Rightarrow> u64 \<Rightarrow> DistributedDualtreeTaskQueue \<Rightarrow> error + DistributedDualtreeTaskQueue" where
  "push_completed_computation reference_count_in quantity_in q =
     (let q1 = q\<lparr>remaining_global_computation :=
                    remaining_global_computation q - quantity_in,
                  table_exchange :=
                    table_exchange q @ [ExchangePushCompletedComputation quantity_in]\<rparr>
      in if length (query_subtables q1) \<le> length (remaining_work_for_query_subtables q1)
         then Inr (q1\<lparr>remaining_work_for_query_subtables :=
                         fold (\<lambda>i rw. rw[i := rw ! i - reference_count_in])
                           [0 ..< length (query_subtables q1)]
                           (remaining_work_for_query_subtables q1)\<rparr>)
         else Inl IndexOutOfRange)"

subsection \<open>The parallel vectors\<close>

definition parallel_vectors :: "DistributedDualtreeTaskQueue \<Rightarrow> bool" where
  "parallel_vectors q =
     (length (tasks q) = length (query_subtables q) \<and>
      length (assigned_work q) = length (query_subtables q) \<and>
      length (remaining_work_for_query_subtables q) = length (query_subtables q))"

subsection \<open>Removing tasks\<close>

text \<open>\<^verbatim>\<open>pop\<close>: the top of the heap is read before anything else.\<close>

definition pop :: "nat \<Rightarrow> DistributedDualtreeTaskQueue \<Rightarrow> error + DistributedDualtreeTaskQueue"
  where
  "pop probe_index q =
     (if probe_index < length (tasks q)
      then (case heap_top (tasks q ! probe_index) of
              Inl e \<Rightarrow> Inl e
            | Inr t \<Rightarrow>
                (case heap_pop (tasks q ! probe_index) of
                   Inl e \<Rightarrow> Inl e
                 | Inr h \<Rightarrow>
                     Inr (q\<lparr>remaining_local_computation :=
                               remaining_local_computation q - work t,
                             tasks := (tasks q)[probe_index := h],
                             num_remaining_tasks := num_remaining_tasks q - 1\<rparr>)))
      else Inl IndexOutOfRange)"

text \<open>
  \<^verbatim>\<open>DequeueTask\<close> for one slot. \<open>task_out\<close> is the pair the caller passes by
  pointer (its first component \<open>None\<close> while no task has been written to it);
  \<open>checkout_requested\<close> says that the pointer \<^verbatim>\<open>checked_out_query_subtable\<close> is not
  null. The result is the returned flag, the pair, the handle written through that
  pointer (if any) and the queue.
\<close>

definition DequeueTask_slot ::
  "Env \<Rightarrow> nat \<Rightarrow> Task option \<times> i32 \<Rightarrow> bool \<Rightarrow> DistributedDualtreeTaskQueue
     \<Rightarrow> error + (bool \<times> (Task option \<times> i32) \<times> nat option \<times> DistributedDualtreeTaskQueue)"
  where
  "DequeueTask_slot env probe_index task_out checkout_requested q =
     (if probe_index < length (tasks q)
      then
        (if length (tasks q ! probe_index) > 0
         then
           (case heap_top (tasks q ! probe_index) of
              Inl e \<Rightarrow> Inl e
            | Inr t \<Rightarrow>
                (case heap_pop (tasks q ! probe_index) of
                   Inl e \<Rightarrow> Inl e
                 | Inr h \<Rightarrow>
                     (let q1 = q\<lparr>tasks := (tasks q)[probe_index := h],
                                  num_remaining_tasks := num_remaining_tasks q - 1,
                                  remaining_local_computation :=
                                    remaining_local_computation q - work t\<rparr>
                      in if checkout_requested
                         then (case LockQuerySubTable probe_index (world_rank env) q1 of
                                 Inl e \<Rightarrow> Inl e
                               | Inr (handle, q2) \<Rightarrow>
                                   Inr (False, (Some t, of_nat probe_index), Some handle, q2))
                         else Inr (False, (Some t, of_nat probe_index), None, q1))))
         else
           (if probe_index < length (query_subtables q)
            then
              (if table_rank (query_subtables q ! probe_index) = world_rank env
               then
                 (if probe_index < length (remaining_work_for_query_subtables q)
                  then
                    (if remaining_work_for_query_subtables q ! probe_index = 0
                     then (case Evict probe_index q of
                             Inl e \<Rightarrow> Inl e
                           | Inr q' \<Rightarrow> Inr (True, task_out, None, q'))
                     else Inr (False, task_out, None, q))
                  else Inl IndexOutOfRange)
               else
                 (if length (tasks q ! probe_index) = 0
                  then (case Flush probe_index q of
                          Inl e \<Rightarrow> Inl e
                        | Inr q' \<Rightarrow> Inr (True, task_out, None, q'))
                  else Inr (False, task_out, None, q)))
            else Inl IndexOutOfRange))
      else Inl IndexOutOfRange)"

subsection \<open>Generating tasks\<close>

text \<open>
  The reference subtable of a received id (owner, begin, count, cache id): the cached
  one, or an alias made by \<^verbatim>\<open>SubTable::Init\<close> and given the cache id. (Modelled from
  the spec: \<^verbatim>\<open>SubTable::Init\<close> is missing from the sources. The alias is a local
  view of the local table at the node \<^verbatim>\<open>FindByBeginCount\<close> finds.)
\<close>

definition frontier_reference_subtable :: "Env \<Rightarrow> i32 \<times> i32 \<times> i32 \<times> i32 \<Rightarrow> SubTable" where
  "frontier_reference_subtable env received =
     (case received of (owner, reference_begin, reference_count, cache_id) \<Rightarrow>
        (case FindSubTable env cache_id of
           Some t \<Rightarrow> t
         | None \<Rightarrow>
             \<lparr>table_rank = local_table_rank env,
              originating_rank = local_table_rank env,
              start_node = FindByBeginCount env reference_begin reference_count,
              cache_block_id = cache_id,
              query_result = 0\<rparr>))"

definition reference_grid :: "Env \<Rightarrow> i32 \<times> i32 \<times> i32 \<times> i32 \<Rightarrow> i32 \<times> i32 \<times> i32" where
  "reference_grid env received =
     (case received of (owner, reference_begin, reference_count, cache_id) \<Rightarrow>
        (table_rank (frontier_reference_subtable env received),
         reference_begin, reference_begin + reference_count))"

text \<open>The loop over the active slots: the indices left to visit.\<close>

fun GenerateTasks_active ::
  "Env \<Rightarrow> SubTable \<Rightarrow> i32 \<times> i32 \<times> i32 \<Rightarrow> i32 \<Rightarrow> nat list \<Rightarrow> DistributedDualtreeTaskQueue
     \<Rightarrow> error + DistributedDualtreeTaskQueue" where
  "GenerateTasks_active env ref grid cache_id [] q = Inr q"
| "GenerateTasks_active env ref grid cache_id (j # js) q =
     (if j < length (query_subtables q)
      then
        (if table_rank (query_subtables q ! j) = world_rank env
         then
           (if j < length (assigned_work q)
            then
              (case assigned_work q ! j of
                 None \<Rightarrow> Inl NullPointer
               | Some ivs \<Rightarrow>
                   (if fst (Insert grid ivs)
                    then
                      (case PushTask env j ref
                              (q\<lparr>assigned_work :=
                                    (assigned_work q)[j := Some (snd (Insert grid ivs))]\<rparr>) of
                         Inl e \<Rightarrow> Inl e
                       | Inr q1 \<Rightarrow>
                           GenerateTasks_active env ref grid cache_id js
                             (q1\<lparr>table_exchange :=
                                    table_exchange q1 @ [LockCache cache_id 1]\<rparr>))
                    else GenerateTasks_active env ref grid cache_id js q))
            else Inl IndexOutOfRange)
         else GenerateTasks_active env ref grid cache_id js q)
      else Inl IndexOutOfRange)"

text \<open>
  Modelled from the spec: \<^verbatim>\<open>QuerySubTableLock::Insert_\<close> is missing from the
  sources. It delegates to the entry's assigned set (following the entry's pointer).
\<close>

definition lock_Insert ::
  "i32 \<times> i32 \<times> i32 \<Rightarrow> QuerySubTableLock \<Rightarrow> error + (bool \<times> QuerySubTableLock)" where
  "lock_Insert grid e =
     (case lock_assigned_work e of
        None \<Rightarrow> Inl NullPointer
      | Some ivs \<Rightarrow>
          Inr (fst (Insert grid ivs), e\<lparr>lock_assigned_work := Some (snd (Insert grid ivs))\<rparr>))"

text \<open>
  Modelled from the spec: \<^verbatim>\<open>QuerySubTableLock::PushTask_\<close> is missing from the
  sources. It pushes into the entry's own heap with the same priority formula and
  increments the queue's number of remaining tasks and remaining local computation.
\<close>

definition lock_PushTask ::
  "Env \<Rightarrow> SubTable \<Rightarrow> nat \<Rightarrow> DistributedDualtreeTaskQueue \<Rightarrow> DistributedDualtreeTaskQueue"
  where
  "lock_PushTask env reference_subtable k q =
     (let e = checked_out_query_subtables q ! k;
          t = new_task env (lock_query_subtable e) reference_subtable
      in q\<lparr>checked_out_query_subtables :=
              (checked_out_query_subtables q)[k := e\<lparr>lock_task := heap_push t (lock_task e)\<rparr>],
            num_remaining_tasks := num_remaining_tasks q + 1,
            remaining_local_computation := remaining_local_computation q + work t\<rparr>)"

text \<open>The loop over the checked-out list, by position.\<close>

fun GenerateTasks_checked_out ::
  "Env \<Rightarrow> SubTable \<Rightarrow> i32 \<times> i32 \<times> i32 \<Rightarrow> i32 \<Rightarrow> nat list \<Rightarrow> DistributedDualtreeTaskQueue
     \<Rightarrow> error + DistributedDualtreeTaskQueue" where
  "GenerateTasks_checked_out env ref grid cache_id [] q = Inr q"
| "GenerateTasks_checked_out env ref grid cache_id (k # ks) q =
     (if k < length (checked_out_query_subtables q)
      then
        (case lock_Insert grid (checked_out_query_subtables q ! k) of
           Inl e \<Rightarrow> Inl e
         | Inr (inserted, e') \<Rightarrow>
             (if inserted
              then
                (let q1 = lock_PushTask env ref k
                            (q\<lparr>checked_out_query_subtables :=
                                  (checked_out_query_subtables q)[k := e']\<rparr>)
                 in GenerateTasks_checked_out env ref grid cache_id ks
                      (q1\<lparr>table_exchange := table_exchange q1 @ [LockCache cache_id 1]\<rparr>))
              else GenerateTasks_checked_out env ref grid cache_id ks q))
      else Inl IndexOutOfRange)"

definition GenerateTasks_one ::
  "Env \<Rightarrow> i32 \<times> i32 \<times> i32 \<times> i32 \<Rightarrow> DistributedDualtreeTaskQueue
     \<Rightarrow> error + DistributedDualtreeTaskQueue" where
  "GenerateTasks_one env received q =
     (let ref = frontier_reference_subtable env received;
          grid = reference_grid env received;
          cache_id = snd (snd (snd received))
      in case GenerateTasks_active env ref grid cache_id
                [0 ..< length (query_subtables q)] q of
           Inl e \<Rightarrow> Inl e
         | Inr q1 \<Rightarrow>
             GenerateTasks_checked_out env ref grid cache_id
               [0 ..< length (checked_out_query_subtables q1)] q1)"

fun GenerateTasks ::
  "Env \<Rightarrow> (i32 \<times> i32 \<times> i32 \<times> i32) list \<Rightarrow> DistributedDualtreeTaskQueue
     \<Rightarrow> error + DistributedDualtreeTaskQueue" where
  "GenerateTasks env [] q = Inr q"
| "GenerateTasks env (received # rest) q =
     (case GenerateTasks_one env received q of
        Inl e \<Rightarrow> Inl e
      | Inr q' \<Rightarrow> GenerateTasks env rest q')"

text \<open>
  When a replay of a reference block changes nothing. An interval (rank, begin, end) is
  not empty when begin is less than end. A slot or an entry is blocked for an interval
  when its assigned work holds one that overlaps it, so that \<^verbatim>\<open>Insert\<close> fails. The
  queue is covered for an interval when every active slot of this process's rank and
  every checked-out entry is blocked for it.
\<close>

definition nonempty_interval :: "i32 \<times> i32 \<times> i32 \<Rightarrow> bool" where
  "nonempty_interval g = (sint (fst (snd g)) < sint (snd (snd g)))"




subsection \<open>Splitting a query subtable\<close>

text \<open>
  The first loop of \<^verbatim>\<open>split_subtree_\<close>: while the heap of the slot is not empty,
  dequeue from it (with no checkout) and append the task to \<^verbatim>\<open>prev_tasks\<close>. The
  pair handed to \<^verbatim>\<open>DequeueTask\<close> is a fresh one each time; the dequeue of a
  non-empty heap always writes a task to it.
\<close>

function split_drain ::
  "Env \<Rightarrow> nat \<Rightarrow> Task list \<Rightarrow> DistributedDualtreeTaskQueue
     \<Rightarrow> error + (Task list \<times> DistributedDualtreeTaskQueue)" where
  "split_drain env subtree_index prev_tasks q =
     (if subtree_index < length (tasks q)
      then
        (if length (tasks q ! subtree_index) > 0
         then
           (case DequeueTask_slot env subtree_index (None, 0) False q of
              Inl e \<Rightarrow> Inl e
            | Inr (cleaned, task_pair, handle, q') \<Rightarrow>
                (case fst task_pair of
                   None \<Rightarrow> Inl EmptyHeap
                 | Some t \<Rightarrow> split_drain env subtree_index (prev_tasks @ [t]) q'))
         else Inr (prev_tasks, q))
      else Inl IndexOutOfRange)"
  by pat_completeness auto
termination
proof (relation "measure (\<lambda>(env, subtree_index, prev_tasks, q). length (tasks q ! subtree_index))")
  show "wf (measure (\<lambda>(env, subtree_index, prev_tasks, q). length (tasks q ! subtree_index)))"
    by simp
next
  fix env :: Env and subtree_index :: nat and prev_tasks :: "Task list"
    and q :: DistributedDualtreeTaskQueue and x2 x y xa ya xb yb x2a
  assume "subtree_index < length (tasks q)" and "0 < length (tasks q ! subtree_index)"
    and "DequeueTask_slot env subtree_index (None, 0) False q = Inr x2"
    and "(x, y) = x2" and "(xa, ya) = y" and "(xb, yb) = ya" and "fst xa = Some x2a"
  then show "((env, subtree_index, prev_tasks @ [x2a], yb), env, subtree_index, prev_tasks, q)
          \<in> measure (\<lambda>(env, subtree_index, prev_tasks, q). length (tasks q ! subtree_index))"
    by (cases "tasks q ! subtree_index")
       (auto simp add: DequeueTask_slot_def heap_top_def heap_pop_def)
qed

declare split_drain.simps [simp del]

text \<open>
  The second loop: every drained task's reference subtable is pushed to the slot and to
  the last slot, and the cache is locked once.
\<close>

fun split_push ::
  "Env \<Rightarrow> nat \<Rightarrow> Task list \<Rightarrow> DistributedDualtreeTaskQueue
     \<Rightarrow> error + DistributedDualtreeTaskQueue" where
  "split_push env subtree_index [] q = Inr q"
| "split_push env subtree_index (t # ts) q =
     (case PushTask env subtree_index (task_reference_subtable t) q of
        Inl e \<Rightarrow> Inl e
      | Inr q1 \<Rightarrow>
          (case PushTask env (length (query_subtables q1) - 1)
                  (task_reference_subtable t) q1 of
             Inl e \<Rightarrow> Inl e
           | Inr q2 \<Rightarrow>
               split_push env subtree_index ts
                 (q2\<lparr>table_exchange :=
                        table_exchange q2
                          @ [LockCache (reference_subtable_cache_block_id t) 1]\<rparr>)))"

text \<open>
  \<^verbatim>\<open>split_subtree_\<close>. A leaf has no children: \<^verbatim>\<open>left()\<close> and \<^verbatim>\<open>right()\<close> are
  null pointers then, and the model stops there (\<^verbatim>\<open>RedistributeAmongCores_\<close>, the one
  caller, splits no leaf). The copy constructor of the assigned work follows the
  slot's pointer.
\<close>

definition split_subtree ::
  "Env \<Rightarrow> nat \<Rightarrow> DistributedDualtreeTaskQueue \<Rightarrow> error + DistributedDualtreeTaskQueue" where
  "split_subtree env subtree_index q =
     (if subtree_index < length (query_subtables q)
      then
        (case node_children (start_node (query_subtables q ! subtree_index)) of
           None \<Rightarrow> Inl NullPointer
         | Some (left, right) \<Rightarrow>
             (let q1 = q\<lparr>query_subtables :=
                           (query_subtables q)[subtree_index :=
                              (query_subtables q ! subtree_index)\<lparr>start_node := left\<rparr>]\<rparr>;
                  q2 = q1\<lparr>query_subtables :=
                            query_subtables q1
                              @ [(Alias (query_subtables q1 ! subtree_index))
                                   \<lparr>start_node := right\<rparr>]\<rparr>
              in case split_drain env subtree_index [] q2 of
                   Inl e \<Rightarrow> Inl e
                 | Inr (prev_tasks, q3) \<Rightarrow>
                     (if subtree_index < length (assigned_work q3) \<and>
                         subtree_index < length (remaining_work_for_query_subtables q3)
                      then
                        (case assigned_work q3 ! subtree_index of
                           None \<Rightarrow> Inl NullPointer
                         | Some ivs \<Rightarrow>
                             split_push env subtree_index prev_tasks
                               (q3\<lparr>tasks := tasks q3 @ [[]],
                                   assigned_work := assigned_work q3 @ [Some ivs],
                                   remaining_work_for_query_subtables :=
                                     remaining_work_for_query_subtables q3
                                       @ [remaining_work_for_query_subtables q3
                                            ! subtree_index]\<rparr>))
                      else Inl IndexOutOfRange)))
      else Inl IndexOutOfRange)"

text \<open>
  \<^verbatim>\<open>RedistributeAmongCores_\<close>: the scan for the largest subtree that is no leaf and
  has tasks, carrying \<^verbatim>\<open>split_index_query_size\<close> and \<^verbatim>\<open>split_index\<close>.
\<close>

fun Redistribute_scan ::
  "nat list \<Rightarrow> DistributedDualtreeTaskQueue \<Rightarrow> i32 \<times> i32 \<Rightarrow> error + (i32 \<times> i32)" where
  "Redistribute_scan [] q found = Inr found"
| "Redistribute_scan (i # is) q (split_index_query_size, split_index) =
     (if i < length (query_subtables q)
      then
        (if \<not> is_leaf (start_node (query_subtables q ! i))
         then
           (if i < length (tasks q)
            then
              (if length (tasks q ! i) > 0 \<and>
                  sint split_index_query_size
                    < sint (node_count (start_node (query_subtables q ! i)))
               then Redistribute_scan is q
                      (node_count (start_node (query_subtables q ! i)), of_nat i)
               else Redistribute_scan is q (split_index_query_size, split_index))
            else Inl IndexOutOfRange)
         else Redistribute_scan is q (split_index_query_size, split_index))
      else Inl IndexOutOfRange)"

definition RedistributeAmongCores ::
  "Env \<Rightarrow> DistributedDualtreeTaskQueue \<Rightarrow> error + DistributedDualtreeTaskQueue" where
  "RedistributeAmongCores env q =
     (case Redistribute_scan [0 ..< length (query_subtables q)] q (0, - 1) of
        Inl e \<Rightarrow> Inl e
      | Inr (split_index_query_size, split_index) \<Rightarrow>
          (if sint split_index \<ge> 0 then split_subtree env (nat (sint split_index)) q
           else Inr q))"

subsection \<open>Dequeuing for a thread\<close>

lemma DequeueTask_slot_length:
  assumes "DequeueTask_slot env probe_index task_out c q = Inr (cleaned, task_out', handle, q')"
  shows "length (tasks q') \<le> length (tasks q) \<and>
         (cleaned \<longrightarrow> length (tasks q') < length (tasks q))"
  using assms
  by (auto simp add: DequeueTask_slot_def heap_top_def heap_pop_def LockQuerySubTable_def
        CheckOut_def Evict_def Flush_def swap_with_last_def Let_def
      split: if_splits list.splits sum.splits)

text \<open>
  The loop of \<^verbatim>\<open>DequeueTask\<close>: a slot that has been cleaned up is probed again, since
  the last slot has taken its place.
\<close>

function DequeueTask_loop ::
  "Env \<Rightarrow> nat \<Rightarrow> Task option \<times> i32 \<Rightarrow> nat option \<Rightarrow> bool \<Rightarrow> DistributedDualtreeTaskQueue
     \<Rightarrow> error + ((Task option \<times> i32) \<times> nat option \<times> DistributedDualtreeTaskQueue)" where
  "DequeueTask_loop env probe_index task_out handle c q =
     (if sint (snd task_out) < 0 \<and> probe_index < length (tasks q)
      then
        (case DequeueTask_slot env probe_index task_out c q of
           Inl e \<Rightarrow> Inl e
         | Inr (cleaned, task_out', handle', q') \<Rightarrow>
             (if cleaned
              then DequeueTask_loop env probe_index task_out'
                     (case handle' of None \<Rightarrow> handle | Some h \<Rightarrow> Some h) c q'
              else DequeueTask_loop env (probe_index + 1) task_out'
                     (case handle' of None \<Rightarrow> handle | Some h \<Rightarrow> Some h) c q'))
      else Inr (task_out, handle, q))"
  by pat_completeness auto
termination
proof (relation "measure (\<lambda>(env, probe_index, task_out, handle, c, q).
                            length (tasks q) - probe_index)")
  show "wf (measure (\<lambda>(env, probe_index, task_out, handle, c, q).
                            length (tasks q) - probe_index))"
    by simp
next
  fix env :: Env and probe_index :: nat and task_out :: "Task option \<times> i32"
    and handle :: "nat option" and c :: bool and q :: DistributedDualtreeTaskQueue
    and x2 x y xa ya xb yb
  assume a: "sint (snd task_out) < 0 \<and> probe_index < length (tasks q)"
    and d: "DequeueTask_slot env probe_index task_out c q = Inr x2"
    and e: "(x, y) = x2" "(xa, ya) = y" "(xb, yb) = ya"
  from d e have d': "DequeueTask_slot env probe_index task_out c q = Inr (x, xa, xb, yb)"
    by simp
  note l = DequeueTask_slot_length [OF d']
  {
    assume x
    with l a have "length (tasks yb) - probe_index < length (tasks q) - probe_index"
      by arith
    then show "((env, probe_index, xa, (case xb of None \<Rightarrow> handle | Some h \<Rightarrow> Some h), c, yb),
             env, probe_index, task_out, handle, c, q)
            \<in> measure (\<lambda>(env, probe_index, task_out, handle, c, q).
                          length (tasks q) - probe_index)"
      by simp
  next
    assume "\<not> x"
    from l a have "length (tasks yb) - (probe_index + 1) < length (tasks q) - probe_index"
      by arith
    then show "((env, probe_index + 1, xa, (case xb of None \<Rightarrow> handle | Some h \<Rightarrow> Some h),
              c, yb),
             env, probe_index, task_out, handle, c, q)
            \<in> measure (\<lambda>(env, probe_index, task_out, handle, c, q).
                          length (tasks q) - probe_index)"
      by simp
  }
qed

declare DequeueTask_loop.simps [simp del]

text \<open>
  \<^verbatim>\<open>DequeueTask\<close> for a thread (the thread id is not used by the source): with fewer
  slots than threads it first tries to split one.
\<close>

definition DequeueTask ::
  "Env \<Rightarrow> Task option \<times> i32 \<Rightarrow> bool \<Rightarrow> DistributedDualtreeTaskQueue
     \<Rightarrow> error + ((Task option \<times> i32) \<times> nat option \<times> DistributedDualtreeTaskQueue)" where
  "DequeueTask env task_out c q =
     (if sint (of_nat (length (tasks q)) :: i32) < sint (num_threads q)
      then (case RedistributeAmongCores env q of
              Inl e \<Rightarrow> Inl e
            | Inr q1 \<Rightarrow> DequeueTask_loop env 0 task_out None c q1)
      else DequeueTask_loop env 0 task_out None c q)"

subsection \<open>Initialisation\<close>

text \<open>
  \<^verbatim>\<open>Init\<close>, on the queue as it is. The vector of query subtables that
  \<^verbatim>\<open>get_frontier_nodes_bounded_by_number\<close> leaves in \<^verbatim>\<open>query_subtables_\<close> (the
  frontier of the local query tree) and the total numbers of query and reference points
  are parameters. The other three vectors are resized to its length and every position
  is given a fresh heap, a fresh set of intervals and the total number of reference
  points. The list of checked-out query subtables and the numbers of exported and of
  imported query subtables are not touched. (\<^verbatim>\<open>TableExchange::Init\<close> is not one of
  the calls recorded.)
\<close>

definition Init ::
  "SubTable list \<Rightarrow> int \<Rightarrow> u64 \<Rightarrow> u64 \<Rightarrow> i32 \<Rightarrow> DistributedDualtreeTaskQueue
     \<Rightarrow> DistributedDualtreeTaskQueue" where
  "Init frontier local_query_result total_num_query_points total_num_reference_points
        num_threads_in q =
     q\<lparr>num_threads := num_threads_in,
        query_subtables :=
          map (\<lambda>t. t\<lparr>query_result := local_query_result, cache_block_id := - 1\<rparr>) frontier,
        tasks := replicate (length frontier) [],
        remaining_global_computation :=
          total_num_query_points * total_num_reference_points,
        remaining_local_computation := 0,
        num_remaining_tasks := 0,
        assigned_work := replicate (length frontier) (Some []),
        remaining_work_for_query_subtables :=
          replicate (length frontier) total_num_reference_points\<rparr>"

subsection \<open>Calls from outside and the states they reach\<close>

text \<open>
  The public member functions that change the queue and are in the sources with all
  they call, as calls with their arguments. (\<^verbatim>\<open>PrepareExtraTaskList\<close> is left out:
  what it does to the queue is done by the task list, which is not in the sources.
  \<^verbatim>\<open>SendReceive\<close>, \<^verbatim>\<open>ReleaseCache\<close> and \<^verbatim>\<open>push_subtable\<close> only call the
  table exchange, which calls back \<^verbatim>\<open>PushNewQueue\<close>, \<^verbatim>\<open>GenerateTasks\<close> and
  \<^verbatim>\<open>Synchronize\<close>.)
\<close>

datatype call =
  CallInit "SubTable list" int u64 u64 i32
  | CallPushNewQueue SubTable i32 SubTable
  | CallPushTask nat SubTable
  | CallGenerateTasks "(i32 \<times> i32 \<times> i32 \<times> i32) list"
  | CallDequeueTask "Task option \<times> i32" bool
  | CallDequeueTask_slot nat "Task option \<times> i32" bool
  | CallPop nat
  | CallLockQuerySubTable nat i32
  | CallReturnQuerySubTable nat
  | CallSynchronize SubTable
  | CallPushCompletedComputation u64 u64
  | CallPushCompletedComputationLock u64 u64 nat
  | CallDecrementRemainingLocalComputation u64
  | CallDecrementRemainingGlobalComputation u64

fun run :: "Env \<Rightarrow> call \<Rightarrow> DistributedDualtreeTaskQueue \<Rightarrow> error + DistributedDualtreeTaskQueue"
  where
  "run env (CallInit frontier lqr tq tr nt) q = Inr (Init frontier lqr tq tr nt q)"
| "run env (CallPushNewQueue fresh r t) q = Inr (snd (PushNewQueue fresh r t q))"
| "run env (CallPushTask i ref) q = PushTask env i ref q"
| "run env (CallGenerateTasks ids) q = GenerateTasks env ids q"
| "run env (CallDequeueTask task_out c) q =
     (case DequeueTask env task_out c q of
        Inl e \<Rightarrow> Inl e
      | Inr (task_out', handle, q') \<Rightarrow> Inr q')"
| "run env (CallDequeueTask_slot i task_out c) q =
     (case DequeueTask_slot env i task_out c q of
        Inl e \<Rightarrow> Inl e
      | Inr (cleaned, task_out', handle, q') \<Rightarrow> Inr q')"
| "run env (CallPop i) q = pop i q"
| "run env (CallLockQuerySubTable i r) q =
     (case LockQuerySubTable i r q of
        Inl e \<Rightarrow> Inl e
      | Inr (handle, q') \<Rightarrow> Inr q')"
| "run env (CallReturnQuerySubTable k) q = ReturnQuerySubTable k q"
| "run env (CallSynchronize t) q = Inr (Synchronize t q)"
| "run env (CallPushCompletedComputation rc qty) q = push_completed_computation rc qty q"
| "run env (CallPushCompletedComputationLock rc qty k) q =
     push_completed_computation_lock rc qty k q"
| "run env (CallDecrementRemainingLocalComputation d) q =
     Inr (decrement_remaining_local_computation d q)"
| "run env (CallDecrementRemainingGlobalComputation d) q =
     Inr (decrement_remaining_global_computation d q)"

fun runs ::
  "Env \<Rightarrow> call list \<Rightarrow> DistributedDualtreeTaskQueue \<Rightarrow> error + DistributedDualtreeTaskQueue"
  where
  "runs env [] q = Inr q"
| "runs env (c # cs) q = (case run env c q of Inl e \<Rightarrow> Inl e | Inr q' \<Rightarrow> runs env cs q')"

text \<open>
  The two calls that write to the remaining local computation with no regard to the
  heaps: \<^verbatim>\<open>decrement_remaining_local_computation\<close> subtracts from it, \<^verbatim>\<open>Init\<close>
  sets it (and the number of remaining tasks) to 0.
\<close>

fun sets_local_computation :: "call \<Rightarrow> bool" where
  "sets_local_computation (CallDecrementRemainingLocalComputation d) = True"
| "sets_local_computation (CallInit frontier lqr tq tr nt) = True"
| "sets_local_computation c = False"

text \<open>
  The task accounting: the number of remaining tasks is the sum of the sizes of the
  heaps of the active slots and of the checked-out entries (as an \<^verbatim>\<open>int\<close>, modulo
  \<open>2 ^ 32\<close>), and the remaining local computation is the sum of the work of the tasks
  in those heaps (a sum of \<^verbatim>\<open>unsigned long\<close>, modulo \<open>2 ^ 64\<close>).
\<close>

definition task_accounting :: "DistributedDualtreeTaskQueue \<Rightarrow> bool" where
  "task_accounting q =
     (num_remaining_tasks q =
        of_nat (sum_list (map length (tasks q))
                + sum_list (map (\<lambda>e. length (lock_task e)) (checked_out_query_subtables q))) \<and>
      remaining_local_computation q =
        sum_list (map (\<lambda>h. sum_list (map work h)) (tasks q))
        + sum_list (map (\<lambda>e. sum_list (map work (lock_task e)))
                      (checked_out_query_subtables q)))"

text \<open>
  The slots as records: position \<open>i\<close> of the four vectors, side by side.
\<close>

definition slots ::
  "DistributedDualtreeTaskQueue
     \<Rightarrow> (SubTable \<times> TaskPriorityQueue \<times> DisjointIntIntervals option \<times> u64) list" where
  "slots q =
     zip (query_subtables q)
       (zip (tasks q) (zip (assigned_work q) (remaining_work_for_query_subtables q)))"

subsection \<open>Observing the queue\<close>

text \<open>
  \<^verbatim>\<open>CheckIntegrity\<close> and \<^verbatim>\<open>Print\<close> take the address of the top of a heap and
  read \<^verbatim>\<open>size()\<close> tasks from there on: the tasks of the heap, in the order of its
  storage. The test of the inner loop of \<^verbatim>\<open>CheckIntegrity\<close>:
\<close>

definition references :: "i32 \<times> i32 \<times> i32 \<Rightarrow> Task \<Rightarrow> bool" where
  "references destruct_id t = (subtable_id (task_reference_subtable t) = destruct_id)"

text \<open>The inner loop, which runs while the flag is not set.\<close>

fun CheckIntegrity_heap :: "i32 \<times> i32 \<times> i32 \<Rightarrow> bool \<Rightarrow> Task list \<Rightarrow> bool" where
  "CheckIntegrity_heap destruct_id flag [] = flag"
| "CheckIntegrity_heap destruct_id flag (t # ts) =
     (if flag then flag else CheckIntegrity_heap destruct_id (references destruct_id t) ts)"

text \<open>The loop over the active slots: the indices left to visit, and the flag.\<close>

fun CheckIntegrity_active ::
  "i32 \<times> i32 \<times> i32 \<Rightarrow> nat list \<Rightarrow> TaskPriorityQueue list \<Rightarrow> bool \<Rightarrow> error + bool" where
  "CheckIntegrity_active destruct_id [] ts flag = Inr flag"
| "CheckIntegrity_active destruct_id (i # is) ts flag =
     (if flag then Inr flag
      else if i < length ts
      then (case heap_top (ts ! i) of
              Inl e \<Rightarrow> Inl e
            | Inr first \<Rightarrow>
                CheckIntegrity_active destruct_id is ts
                  (CheckIntegrity_heap destruct_id flag (ts ! i)))
      else Inl IndexOutOfRange)"

text \<open>The loop over the checked-out list.\<close>

fun CheckIntegrity_checked_out ::
  "i32 \<times> i32 \<times> i32 \<Rightarrow> QuerySubTableLock list \<Rightarrow> bool \<Rightarrow> error + bool" where
  "CheckIntegrity_checked_out destruct_id [] flag = Inr flag"
| "CheckIntegrity_checked_out destruct_id (e # es) flag =
     (if flag then Inr flag
      else (case heap_top (lock_task e) of
              Inl err \<Rightarrow> Inl err
            | Inr first \<Rightarrow>
                CheckIntegrity_checked_out destruct_id es
                  (CheckIntegrity_heap destruct_id flag (lock_task e))))"

definition CheckIntegrity ::
  "i32 \<times> i32 \<times> i32 \<Rightarrow> DistributedDualtreeTaskQueue \<Rightarrow> error + bool" where
  "CheckIntegrity destruct_id q =
     (case CheckIntegrity_active destruct_id [0 ..< length (query_subtables q)] (tasks q) False of
        Inl e \<Rightarrow> Inl e
      | Inr flag \<Rightarrow>
          CheckIntegrity_checked_out destruct_id (checked_out_query_subtables q) flag)"

text \<open>
  What \<^verbatim>\<open>Print\<close> writes, line by line: for an active slot the subtable id, the
  number of tasks, the remaining work, the originating rank and the reference set; for
  a checked-out entry the subtable id, the number of tasks, the rank it is locked to
  and the reference set. A reference is a subtable id and a cache block.
\<close>

datatype print_line =
  ActiveLine "i32 \<times> i32 \<times> i32" int u64 i32 "((i32 \<times> i32 \<times> i32) \<times> i32) list"
  | CheckedOutLine "i32 \<times> i32 \<times> i32" int i32 "((i32 \<times> i32 \<times> i32) \<times> i32) list"

definition reference_set :: "Task list \<Rightarrow> ((i32 \<times> i32 \<times> i32) \<times> i32) list" where
  "reference_set h =
     map (\<lambda>t. (subtable_id (task_reference_subtable t),
                cache_block_id (task_reference_subtable t))) h"

fun Print_active ::
  "nat list \<Rightarrow> DistributedDualtreeTaskQueue \<Rightarrow> error + print_line list" where
  "Print_active [] q = Inr []"
| "Print_active (i # is) q =
     (if i < length (query_subtables q) \<and> i < length (tasks q) \<and>
         i < length (remaining_work_for_query_subtables q)
      then (case heap_top (tasks q ! i) of
              Inl e \<Rightarrow> Inl e
            | Inr first \<Rightarrow>
                (case Print_active is q of
                   Inl e \<Rightarrow> Inl e
                 | Inr ls \<Rightarrow>
                     Inr (ActiveLine (subtable_id (query_subtables q ! i))
                            (int (length (tasks q ! i)))
                            (remaining_work_for_query_subtables q ! i)
                            (originating_rank (query_subtables q ! i))
                            (reference_set (tasks q ! i)) # ls)))
      else Inl IndexOutOfRange)"

fun Print_checked_out :: "QuerySubTableLock list \<Rightarrow> error + print_line list" where
  "Print_checked_out [] = Inr []"
| "Print_checked_out (e # es) =
     (case heap_top (lock_task e) of
        Inl err \<Rightarrow> Inl err
      | Inr first \<Rightarrow>
          (case Print_checked_out es of
             Inl err \<Rightarrow> Inl err
           | Inr ls \<Rightarrow>
               Inr (CheckedOutLine (subtable_id (lock_query_subtable e))
                      (int (length (lock_task e))) (locked_mpi_rank e)
                      (reference_set (lock_task e)) # ls)))"

definition Print :: "DistributedDualtreeTaskQueue \<Rightarrow> error + print_line list" where
  "Print q =
     (case Print_active [0 ..< length (query_subtables q)] q of
        Inl e \<Rightarrow> Inl e
      | Inr ls \<Rightarrow>
          (case Print_checked_out (checked_out_query_subtables q) of
             Inl e \<Rightarrow> Inl e
           | Inr ls' \<Rightarrow> Inr (ls @ ls')))"

text \<open>All the task heaps, in the order both functions visit them.\<close>

definition scanned_heaps :: "DistributedDualtreeTaskQueue \<Rightarrow> TaskPriorityQueue list" where
  "scanned_heaps q = tasks q @ map lock_task (checked_out_query_subtables q)"

text \<open>
  The scan of \<^verbatim>\<open>CheckIntegrity\<close> told over that list (a statement of what the loops
  above do, used in the proofs): it stops at the first heap that holds a reference to
  the id, and is undefined at an empty heap it reaches before.
\<close>

fun integrity_scan ::
  "i32 \<times> i32 \<times> i32 \<Rightarrow> TaskPriorityQueue list \<Rightarrow> bool \<Rightarrow> error + bool" where
  "integrity_scan d [] flag = Inr flag"
| "integrity_scan d (h # hs) flag =
     (if flag then Inr flag
      else if h = [] then Inl EmptyHeap
      else integrity_scan d hs (list_ex (references d) h))"

subsection \<open>A small queue\<close>

text \<open>
  Two query points and three reference points on process 0: a query tree with a root
  and two leaves, one reference block in the cache at position 42.
\<close>

definition ex_left :: TreeType where
  "ex_left = TreeNode 0 1 1 None"

definition ex_right :: TreeType where
  "ex_right = TreeNode 1 1 2 None"

definition ex_root :: TreeType where
  "ex_root = TreeNode 0 2 0 (Some (ex_left, ex_right))"

definition ex_query :: SubTable where
  "ex_query =
     \<lparr>table_rank = 0, originating_rank = 0, start_node = ex_root,
      cache_block_id = - 1, query_result = 0\<rparr>"

definition ex_reference :: SubTable where
  "ex_reference =
     \<lparr>table_rank = 0, originating_rank = 0, start_node = TreeNode 0 3 5 None,
      cache_block_id = 42, query_result = 0\<rparr>"

definition ex_env :: Env where
  "ex_env =
     \<lparr>world_rank = 0,
      metric_mid = (\<lambda>a b. real (a + b)),
      process_rank = (\<lambda>r. r),
      FindSubTable = (\<lambda>c. if c = 42 then Some ex_reference else None),
      local_table_rank = 0,
      FindByBeginCount = (\<lambda>b c. TreeNode b c 9 None)\<rparr>"


text \<open>One active slot for the whole query tree, nothing assigned, three points to go.\<close>

definition ex_queue :: DistributedDualtreeTaskQueue where
  "ex_queue =
     Constructor\<lparr>assigned_work := [Some []], query_subtables := [ex_query],
                 remaining_work_for_query_subtables := [3], tasks := [[]],
                 remaining_global_computation := 6\<rparr>"

text \<open>The same queue with a second query subtable checked out to process 1.\<close>

definition ex_lock :: QuerySubTableLock where
  "ex_lock =
     \<lparr>lock_assigned_work = Some [], locked_mpi_rank = 1,
      lock_query_subtable = ex_query\<lparr>start_node := TreeNode 2 1 3 None\<rparr>,
      lock_remaining_work_for_query_subtable = 3, lock_task = []\<rparr>"

definition ex_queue_locked :: DistributedDualtreeTaskQueue where
  "ex_queue_locked = ex_queue\<lparr>checked_out_query_subtables := [ex_lock]\<rparr>"

text \<open>
  The small queue after the reference block (owner 0, begin 0, count 3, cache 42) has
  been received: one task of work \<open>2 * 3\<close> in slot 0.
\<close>

definition ex_task :: Task where
  "ex_task = new_task ex_env ex_query ex_reference"

definition ex_queue_task :: DistributedDualtreeTaskQueue where
  "ex_queue_task =
     ex_queue\<lparr>assigned_work := [Some [(0, 0, 3)]], tasks := [[ex_task]],
              num_remaining_tasks := 1, remaining_local_computation := 6,
              table_exchange := [LockCache 42 1]\<rparr>"

text \<open>The small queue with its one task and a second slot whose heap is empty.\<close>

definition ex_queue_two :: DistributedDualtreeTaskQueue where
  "ex_queue_two =
     ex_queue_task\<lparr>assigned_work := [Some [(0, 0, 3)], Some []],
                   query_subtables := [ex_query, ex_query\<lparr>start_node := TreeNode 2 1 3 None\<rparr>],
                   remaining_work_for_query_subtables := [3, 3],
                   tasks := [[ex_task], []]\<rparr>"

text \<open>
  Two slots, the first with an empty heap and the second, for the point 2, with one
  task of work \<open>1 * 3\<close>: as it is, with no work left for the first slot, and with the
  first slot imported from process 1.
\<close>

definition ex_second :: SubTable where
  "ex_second = ex_query\<lparr>start_node := TreeNode 2 1 3 None\<rparr>"

definition ex_task_second :: Task where
  "ex_task_second = new_task ex_env ex_second ex_reference"

definition ex_queue_pair :: DistributedDualtreeTaskQueue where
  "ex_queue_pair =
     Constructor\<lparr>assigned_work := [Some [], Some [(0, 0, 3)]],
                 query_subtables := [ex_query, ex_second],
                 remaining_work_for_query_subtables := [3, 5],
                 tasks := [[], [ex_task_second]],
                 num_remaining_tasks := 1, remaining_local_computation := 3,
                 remaining_global_computation := 6,
                 table_exchange := [LockCache 42 1]\<rparr>"

definition ex_queue_pair_done :: DistributedDualtreeTaskQueue where
  "ex_queue_pair_done = ex_queue_pair\<lparr>remaining_work_for_query_subtables := [0, 5]\<rparr>"

definition ex_queue_pair_imported :: DistributedDualtreeTaskQueue where
  "ex_queue_pair_imported =
     ex_queue_pair\<lparr>query_subtables := [ex_query\<lparr>table_rank := 1, originating_rank := 1\<rparr>,
                                         ex_second],
                   num_imported_query_subtables := 1\<rparr>"

text \<open>
  A queue initialised with no slot and two threads imports the whole query tree of
  process 1 and is given a task for it: the state after \<^verbatim>\<open>Init\<close>,
  \<^verbatim>\<open>PushNewQueue\<close> and \<^verbatim>\<open>PushTask\<close>.
\<close>

definition ex_imported :: SubTable where
  "ex_imported = ex_query\<lparr>table_rank := 1\<rparr>"

definition ex_calls_new :: "call list" where
  "ex_calls_new =
     [CallInit [] 0 2 3 2, CallPushNewQueue ex_query 1 ex_imported,
      CallPushTask 0 ex_reference]"

definition ex_queue_new :: DistributedDualtreeTaskQueue where
  "ex_queue_new =
     Constructor\<lparr>assigned_work := [None],
                 query_subtables := [ex_imported\<lparr>originating_rank := 1\<rparr>],
                 remaining_work_for_query_subtables := [0],
                 tasks := [[new_task ex_env (ex_imported\<lparr>originating_rank := 1\<rparr>) ex_reference]],
                 num_imported_query_subtables := 1, num_remaining_tasks := 1,
                 num_threads := 2,
                 remaining_global_computation := 6, remaining_local_computation := 6\<rparr>"

text \<open>
  The small queue with its one task after its slot has been locked for process 1: no
  active slot, the task in the heap of the checked-out entry.
\<close>

definition ex_queue_exported :: DistributedDualtreeTaskQueue where
  "ex_queue_exported =
     Constructor\<lparr>checked_out_query_subtables :=
                   [\<lparr>lock_assigned_work = Some [(0, 0, 3)], locked_mpi_rank = 1,
                     lock_query_subtable = ex_query,
                     lock_remaining_work_for_query_subtable = 3, lock_task = [ex_task]\<rparr>],
                 num_exported_query_subtables := 1, num_remaining_tasks := 1,
                 remaining_global_computation := 6, remaining_local_computation := 6,
                 table_exchange := [LockCache 42 1]\<rparr>"

text \<open>
  A sequence of calls on the queue initialised with the whole query tree and two
  threads: a reference block arrives, a thread dequeues with a checkout (which splits
  the tree first), a second block arrives, the checked-out subtable is returned, a task
  is popped and one is pushed.
\<close>

definition ex_calls :: "call list" where
  "ex_calls =
     [CallGenerateTasks [(0, 0, 3, 42)], CallDequeueTask (None, - 1) True,
      CallGenerateTasks [(0, 3, 2, 7)], CallReturnQuerySubTable 0, CallPop 0,
      CallPushTask 1 ex_reference]"

section \<open>Properties\<close>

subsection \<open>The heap and the intervals\<close>

text \<open>
  \<open>heap_push\<close> keeps the priority order, and \<open>overlaps\<close> says that two half-open
  intervals of one rank share a point.
\<close>

lemma set_heap_push: "set (heap_push t h) = insert t (set h)"
  by (induction h) auto

lemma heap_sorted_push: "heap_sorted h \<Longrightarrow> heap_sorted (heap_push t h)"
  by (induction h) (auto simp add: heap_sorted_def set_heap_push)

lemma overlaps_iff_intersect:
  "overlaps (r1, b1, e1) (r2, b2, e2) \<longleftrightarrow>
     r1 = r2 \<and> {sint b1 ..< sint e1} \<inter> {sint b2 ..< sint e2} \<noteq> {}"
proof -
  have "{sint b1 ..< sint e1} \<inter> {sint b2 ..< sint e2}
          = {max (sint b1) (sint b2) ..< min (sint e1) (sint e2)}"
    by auto
  then show ?thesis by auto
qed

text \<open>
  The \<^verbatim>\<open>int\<close> counters and the end of a reference interval wrap around: a task
  pushed when the number of remaining tasks is \<open>2 ^ 31 - 1\<close> leaves it at \<open>- 2 ^ 31\<close>,
  and the interval of an id with begin \<open>2 ^ 31 - 1\<close> and count 1 ends at \<open>- 2 ^ 31\<close>.
\<close>

lemma PushTask_num_remaining_tasks_wraps:
  "isl (PushTask ex_env 0 ex_reference (ex_queue\<lparr>num_remaining_tasks := 2147483647\<rparr>))
     = False \<and>
   sint (num_remaining_tasks
           (projr (PushTask ex_env 0 ex_reference
                     (ex_queue\<lparr>num_remaining_tasks := 2147483647\<rparr>)))) = - 2147483648"
  by (simp add: PushTask_def Let_def ex_queue_def Constructor_def)

lemma reference_grid_end_wraps:
  "sint (snd (snd (reference_grid ex_env (0, 2147483647, 1, 42)))) = - 2147483648 \<and>
   \<not> nonempty_interval (reference_grid ex_env (0, 2147483647, 1, 42))"
  by (simp add: reference_grid_def nonempty_interval_def)

subsection \<open>Single operations\<close>

lemma unat_sub_wrap:
  "unat ((a::u64) - b) =
     (if unat b \<le> unat a then unat a - unat b else unat a + 2 ^ 64 - unat b)"
  by (simp add: unat_sub_if_size word_size)

lemma fold_decrement:
  "n \<le> length rw \<Longrightarrow>
   fold (\<lambda>i rw. rw[i := rw ! i - (c::u64)]) [0 ..< n] rw
     = map (\<lambda>w. w - c) (take n rw) @ drop n rw"
proof (induction n)
  case 0
  then show ?case by simp
next
  case (Suc n)
  then have n: "n < length rw" by simp
  have "fold (\<lambda>i rw. rw[i := rw ! i - c]) [0 ..< Suc n] rw
          = (map (\<lambda>w. w - c) (take n rw) @ drop n rw)
              [n := (map (\<lambda>w. w - c) (take n rw) @ drop n rw) ! n - c]"
    using Suc by simp
  also have "\<dots> = map (\<lambda>w. w - c) (take n rw) @ (drop n rw)[0 := rw ! n - c]"
    using n by (simp add: list_update_append nth_append)
  also have "(drop n rw)[0 := rw ! n - c] = (rw ! n - c) # drop (Suc n) rw"
    using n by (simp add: Cons_nth_drop_Suc [symmetric])
  also have "map (\<lambda>w. w - c) (take n rw) @ (rw ! n - c) # drop (Suc n) rw
               = map (\<lambda>w. w - c) (take (Suc n) rw) @ drop (Suc n) rw"
    using n by (simp add: take_Suc_conv_app_nth)
  finally show ?case .
qed

text \<open>
  C7, as the code has it. The global form of \<^verbatim>\<open>push_completed_computation\<close>, on a
  queue whose vectors have one length, subtracts the quantity from the remaining global
  computation, hands the quantity to the table exchange, subtracts the reference count
  from the remaining work of every active slot and leaves the checked-out entries as
  they are. The form for one checked-out entry does the same to the global counter and
  the exchange, subtracts the reference count from that entry's remaining work alone,
  and leaves the active slots' remaining work as it is. The subtraction is that of
  \<^verbatim>\<open>unsigned long\<close>: the counter goes down by the amount when the amount is at most
  the counter, and otherwise wraps around to the counter plus \<open>2 ^ 64\<close> minus the
  amount.
\<close>

theorem push_completed_computation_effect:
  "(parallel_vectors q \<longrightarrow>
      push_completed_computation rc qty q =
        Inr (q\<lparr>remaining_global_computation := remaining_global_computation q - qty,
               table_exchange := table_exchange q @ [ExchangePushCompletedComputation qty],
               remaining_work_for_query_subtables :=
                 map (\<lambda>w. w - rc) (remaining_work_for_query_subtables q)\<rparr>)) \<and>
   (k < length (checked_out_query_subtables q) \<longrightarrow>
      push_completed_computation_lock rc qty k q =
        Inr (q\<lparr>remaining_global_computation := remaining_global_computation q - qty,
               table_exchange := table_exchange q @ [ExchangePushCompletedComputation qty],
               checked_out_query_subtables :=
                 (checked_out_query_subtables q)[k :=
                    (checked_out_query_subtables q ! k)
                      \<lparr>lock_remaining_work_for_query_subtable :=
                         lock_remaining_work_for_query_subtable
                           (checked_out_query_subtables q ! k) - rc\<rparr>]\<rparr>)) \<and>
   unat (remaining_global_computation q - qty) =
     (if unat qty \<le> unat (remaining_global_computation q)
      then unat (remaining_global_computation q) - unat qty
      else unat (remaining_global_computation q) + 2 ^ 64 - unat qty) \<and>
   map unat (map (\<lambda>w. w - rc) (remaining_work_for_query_subtables q)) =
     map (\<lambda>w. if unat rc \<le> unat w then unat w - unat rc else unat w + 2 ^ 64 - unat rc)
       (remaining_work_for_query_subtables q) \<and>
   unat (lock_remaining_work_for_query_subtable (checked_out_query_subtables q ! k) - rc) =
     (if unat rc \<le> unat (lock_remaining_work_for_query_subtable
                             (checked_out_query_subtables q ! k))
      then unat (lock_remaining_work_for_query_subtable (checked_out_query_subtables q ! k))
             - unat rc
      else unat (lock_remaining_work_for_query_subtable (checked_out_query_subtables q ! k))
             + 2 ^ 64 - unat rc)"
proof (intro conjI impI)
  assume pv: "parallel_vectors q"
  then have len:
    "length (remaining_work_for_query_subtables q) = length (query_subtables q)"
    by (simp add: parallel_vectors_def)
  have "fold (\<lambda>i rw. rw[i := rw ! i - rc]) [0 ..< length (query_subtables q)]
          (remaining_work_for_query_subtables q)
        = map (\<lambda>w. w - rc) (remaining_work_for_query_subtables q)"
    using fold_decrement [of "length (query_subtables q)"
        "remaining_work_for_query_subtables q" rc] len by simp
  then show "push_completed_computation rc qty q =
        Inr (q\<lparr>remaining_global_computation := remaining_global_computation q - qty,
               table_exchange := table_exchange q @ [ExchangePushCompletedComputation qty],
               remaining_work_for_query_subtables :=
                 map (\<lambda>w. w - rc) (remaining_work_for_query_subtables q)\<rparr>)"
    by (simp add: push_completed_computation_def Let_def len)
next
  assume "k < length (checked_out_query_subtables q)"
  then show "push_completed_computation_lock rc qty k q =
        Inr (q\<lparr>remaining_global_computation := remaining_global_computation q - qty,
               table_exchange := table_exchange q @ [ExchangePushCompletedComputation qty],
               checked_out_query_subtables :=
                 (checked_out_query_subtables q)[k :=
                    (checked_out_query_subtables q ! k)
                      \<lparr>lock_remaining_work_for_query_subtable :=
                         lock_remaining_work_for_query_subtable
                           (checked_out_query_subtables q ! k) - rc\<rparr>]\<rparr>)"
    by (simp add: push_completed_computation_lock_def Let_def)
next
  show "unat (remaining_global_computation q - qty) =
     (if unat qty \<le> unat (remaining_global_computation q)
      then unat (remaining_global_computation q) - unat qty
      else unat (remaining_global_computation q) + 2 ^ 64 - unat qty)"
    by (rule unat_sub_wrap)
next
  show "map unat (map (\<lambda>w. w - rc) (remaining_work_for_query_subtables q)) =
     map (\<lambda>w. if unat rc \<le> unat w then unat w - unat rc else unat w + 2 ^ 64 - unat rc)
       (remaining_work_for_query_subtables q)"
    by (simp add: unat_sub_wrap)
next
  show "unat (lock_remaining_work_for_query_subtable (checked_out_query_subtables q ! k) - rc) =
     (if unat rc \<le> unat (lock_remaining_work_for_query_subtable
                             (checked_out_query_subtables q ! k))
      then unat (lock_remaining_work_for_query_subtable (checked_out_query_subtables q ! k))
             - unat rc
      else unat (lock_remaining_work_for_query_subtable (checked_out_query_subtables q ! k))
             + 2 ^ 64 - unat rc)"
    by (rule unat_sub_wrap)
qed

text \<open>
  On the small queue with one checked-out entry, three reference points and a quantity
  of six completed: the global counter goes from 6 to 0; the global form takes the
  slot's remaining work from 3 to 0, the other form the entry's. On the freshly
  constructed queue, which has no checked-out entry, the global form alone is defined.
\<close>

theorem push_completed_computation_effect_witness:
  "parallel_vectors ex_queue_locked \<and>
   0 < length (checked_out_query_subtables ex_queue_locked) \<and>
   push_completed_computation 3 6 ex_queue_locked =
     Inr (ex_queue_locked\<lparr>remaining_global_computation := 0,
            table_exchange := [ExchangePushCompletedComputation 6],
            remaining_work_for_query_subtables := [0]\<rparr>) \<and>
   push_completed_computation_lock 3 6 0 ex_queue_locked =
     Inr (ex_queue_locked\<lparr>remaining_global_computation := 0,
            table_exchange := [ExchangePushCompletedComputation 6],
            checked_out_query_subtables :=
              [ex_lock\<lparr>lock_remaining_work_for_query_subtable := 0\<rparr>]\<rparr>) \<and>
   parallel_vectors Constructor \<and>
   push_completed_computation 3 0 Constructor =
     Inr (Constructor\<lparr>table_exchange := [ExchangePushCompletedComputation 0]\<rparr>)"
proof -
  have pv: "parallel_vectors ex_queue_locked"
    by (simp add: parallel_vectors_def ex_queue_locked_def ex_queue_def Constructor_def)
  have k: "0 < length (checked_out_query_subtables ex_queue_locked)"
    by (simp add: ex_queue_locked_def)
  have pc: "parallel_vectors Constructor"
    by (simp add: parallel_vectors_def Constructor_def)
  note t = push_completed_computation_effect [of ex_queue_locked 3 6 0]
  from t pv have "push_completed_computation 3 6 ex_queue_locked =
     Inr (ex_queue_locked\<lparr>remaining_global_computation := 0,
            table_exchange := [ExchangePushCompletedComputation 6],
            remaining_work_for_query_subtables := [0]\<rparr>)"
    by (simp add: ex_queue_locked_def ex_queue_def Constructor_def ex_lock_def)
  moreover from t k have "push_completed_computation_lock 3 6 0 ex_queue_locked =
     Inr (ex_queue_locked\<lparr>remaining_global_computation := 0,
            table_exchange := [ExchangePushCompletedComputation 6],
            checked_out_query_subtables :=
              [ex_lock\<lparr>lock_remaining_work_for_query_subtable := 0\<rparr>]\<rparr>)"
    by (simp add: ex_queue_locked_def ex_queue_def Constructor_def ex_lock_def)
  moreover from push_completed_computation_effect [of Constructor 3 0 0] pc
  have "push_completed_computation 3 0 Constructor =
     Inr (Constructor\<lparr>table_exchange := [ExchangePushCompletedComputation 0]\<rparr>)"
    by (simp add: Constructor_def)
  ultimately show ?thesis using pv k pc by simp
qed

text \<open>
  C7 as stated fails: on the queue initialised with one slot (6 to go globally, 3
  reference points to go for the slot), \<^verbatim>\<open>push_completed_computation\<close> with a
  reference count of 4 and a quantity of 7 leaves both counters at \<open>2 ^ 64 - 1\<close>:
  neither has decreased.
\<close>

theorem push_completed_computation_wrap_counterexample:
  "remaining_global_computation (Init [ex_query] 0 2 3 1 Constructor) = 6 \<and>
   remaining_work_for_query_subtables (Init [ex_query] 0 2 3 1 Constructor) = [3] \<and>
   push_completed_computation 4 7 (Init [ex_query] 0 2 3 1 Constructor) =
     Inr ((Init [ex_query] 0 2 3 1 Constructor)
            \<lparr>remaining_global_computation := 18446744073709551615,
             table_exchange := [ExchangePushCompletedComputation 7],
             remaining_work_for_query_subtables := [18446744073709551615]\<rparr>)"
  by (simp add: push_completed_computation_def Init_def Constructor_def Let_def)

text \<open>
  C8. \<^verbatim>\<open>PushNewQueue\<close> appends one slot: the given query subtable with its
  originating rank set, remaining work 0, an empty heap, and a null pointer where the
  specification has an empty assigned set (\<^verbatim>\<open>resize\<close> in \<^verbatim>\<open>GrowSlots_\<close> allocates
  nothing). It adds one to the number of imported query subtables, returns the last
  index of the task vector and leaves the slots before it as they were.
\<close>

theorem PushNewQueue_effect:
  "PushNewQueue fresh r query_subtable_in q =
     (length (tasks q),
      q\<lparr>assigned_work := assigned_work q @ [None],
        query_subtables := query_subtables q @ [query_subtable_in\<lparr>originating_rank := r\<rparr>],
        remaining_work_for_query_subtables := remaining_work_for_query_subtables q @ [0],
        tasks := tasks q @ [[]],
        num_imported_query_subtables := num_imported_query_subtables q + 1\<rparr>)"
  by (simp add: PushNewQueue_def GrowSlots_def Let_def Alias_def)

lemma Synchronize_loop_not_found:
  "\<not> list_ex (\<lambda>e. subtable_includes (lock_query_subtable e) received) rest \<Longrightarrow>
   Synchronize_loop received passed rest q = q"
  by (induction rest arbitrary: passed) simp_all

text \<open>
  C9, as the code has it. Nothing in the class aborts. When no checked-out entry
  includes the received subtable, \<^verbatim>\<open>Synchronize\<close> returns and leaves the queue as it
  was. The two decrements subtract modulo \<open>2 ^ 64\<close>: a decrement larger than the
  counter wraps around.
\<close>

theorem invariant_violations_not_fatal:
  assumes "\<not> list_ex (\<lambda>e. subtable_includes (lock_query_subtable e) received)
               (checked_out_query_subtables q)"
  shows "Synchronize received q = q \<and>
         remaining_local_computation (decrement_remaining_local_computation d q)
           = remaining_local_computation q - d \<and>
         unat (remaining_local_computation (decrement_remaining_local_computation d q))
           = (if unat d \<le> unat (remaining_local_computation q)
              then unat (remaining_local_computation q) - unat d
              else unat (remaining_local_computation q) + 2 ^ 64 - unat d) \<and>
         remaining_global_computation (decrement_remaining_global_computation d q)
           = remaining_global_computation q - d \<and>
         unat (remaining_global_computation (decrement_remaining_global_computation d q))
           = (if unat d \<le> unat (remaining_global_computation q)
              then unat (remaining_global_computation q) - unat d
              else unat (remaining_global_computation q) + 2 ^ 64 - unat d)"
  using assms
  by (simp add: Synchronize_def Synchronize_loop_not_found
        decrement_remaining_local_computation_def decrement_remaining_global_computation_def
        unat_sub_wrap)

text \<open>
  The queue with one entry checked out for the points from 2 on receives the subtable
  of the points 0 and 1, which the entry does not include; its counters are decremented
  by 7.
\<close>

theorem invariant_violations_not_fatal_witness:
  "\<not> list_ex (\<lambda>e. subtable_includes (lock_query_subtable e) ex_query)
        (checked_out_query_subtables ex_queue_locked) \<and>
   Synchronize ex_query ex_queue_locked = ex_queue_locked \<and>
   unat (remaining_local_computation (decrement_remaining_local_computation 7 ex_queue_locked))
     = 18446744073709551609 \<and>
   unat (remaining_global_computation
           (decrement_remaining_global_computation 7 ex_queue_locked))
     = 18446744073709551615"
proof -
  have h: "\<not> list_ex (\<lambda>e. subtable_includes (lock_query_subtable e) ex_query)
        (checked_out_query_subtables ex_queue_locked)"
    by (simp add: ex_queue_locked_def ex_lock_def ex_query_def ex_root_def
          subtable_includes_def)
  have rl: "remaining_local_computation ex_queue_locked = 0"
    by (simp add: ex_queue_locked_def ex_queue_def Constructor_def)
  have rg: "remaining_global_computation ex_queue_locked = 6"
    by (simp add: ex_queue_locked_def ex_queue_def Constructor_def)
  note t = invariant_violations_not_fatal [OF h, of 7]
  from t have s: "Synchronize ex_query ex_queue_locked = ex_queue_locked"
    by (rule conjunct1)
  from t have
    "unat (remaining_local_computation
             (decrement_remaining_local_computation 7 ex_queue_locked))
       = (if unat (7::u64) \<le> unat (remaining_local_computation ex_queue_locked)
          then unat (remaining_local_computation ex_queue_locked) - unat (7::u64)
          else unat (remaining_local_computation ex_queue_locked) + 2 ^ 64 - unat (7::u64))"
    by blast
  also have "\<dots> = 18446744073709551609"
    by (simp add: rl)
  finally have l: "unat (remaining_local_computation
             (decrement_remaining_local_computation 7 ex_queue_locked))
       = 18446744073709551609" .
  from t have
    "unat (remaining_global_computation
             (decrement_remaining_global_computation 7 ex_queue_locked))
       = (if unat (7::u64) \<le> unat (remaining_global_computation ex_queue_locked)
          then unat (remaining_global_computation ex_queue_locked) - unat (7::u64)
          else unat (remaining_global_computation ex_queue_locked) + 2 ^ 64 - unat (7::u64))"
    by blast
  also have "\<dots> = 18446744073709551615"
    by (simp add: rg)
  finally have g: "unat (remaining_global_computation
             (decrement_remaining_global_computation 7 ex_queue_locked))
       = 18446744073709551615" .
  from h s l g show ?thesis by blast
qed

text \<open>
  C9 as stated fails: on the freshly constructed queue, \<^verbatim>\<open>Synchronize\<close> finds no
  entry and returns the queue unchanged, and decrementing either counter (both 0) by 1
  returns with the counter at \<open>2 ^ 64 - 1\<close>.
\<close>

theorem invariant_violations_fatal_counterexample:
  "Synchronize ex_query Constructor = Constructor \<and>
   remaining_local_computation (decrement_remaining_local_computation 1 Constructor)
     = 18446744073709551615 \<and>
   remaining_global_computation (decrement_remaining_global_computation 1 Constructor)
     = 18446744073709551615"
  by (simp add: Synchronize_def Constructor_def decrement_remaining_local_computation_def
        decrement_remaining_global_computation_def)

lemmas ex_defs = ex_queue_def Constructor_def ex_query_def ex_root_def ex_left_def ex_right_def
  ex_reference_def ex_env_def ex_task_def ex_queue_task_def new_task_def
  process_rank_favor_factor_def

lemma swap_with_last_update:
  assumes "i < length v"
  shows "swap_with_last i (v[i := x]) = swap_with_last i v"
proof -
  from assms have ne: "v \<noteq> []" by auto
  show ?thesis
  proof (cases "i = length v - 1")
    case True
    with assms ne show ?thesis
      by (simp add: swap_with_last_def butlast_list_update last_list_update)
  next
    case False
    with assms ne show ?thesis
      by (simp add: swap_with_last_def last_list_update)
  qed
qed

text \<open>
  C2. When the heap of slot \<open>s\<close> is not empty, \<^verbatim>\<open>DequeueTask\<close> for that slot writes
  the top task and the slot number to \<open>task_out\<close>, pops the task, takes one from the
  number of remaining tasks and the task's work from the remaining local computation
  (in the arithmetic of \<^verbatim>\<open>int\<close> and of \<^verbatim>\<open>unsigned long\<close>), and returns false.
  When a checkout is requested it then moves the slot (with the popped heap) into a new
  entry at the front of the checked-out list, locked to this process's rank, adds one to
  the number of exported query subtables, and removes the slot from each of the four
  vectors: the last record overwrites position \<open>s\<close> and the tail is popped. The handle
  is the front of the list. In a heap in priority order no task has a higher priority
  than the one returned. (Modelled from the spec: \<^verbatim>\<open>CheckOut_\<close>.)
\<close>

theorem DequeueTask_slot_nonempty:
  assumes "parallel_vectors q" and "s < length (tasks q)" and "tasks q ! s = t # h"
  shows
    "DequeueTask_slot env s task_out False q =
       Inr (False, (Some t, of_nat s), None,
            q\<lparr>tasks := (tasks q)[s := h],
              num_remaining_tasks := num_remaining_tasks q - 1,
              remaining_local_computation := remaining_local_computation q - work t\<rparr>) \<and>
     DequeueTask_slot env s task_out True q =
       Inr (False, (Some t, of_nat s), Some 0,
            q\<lparr>tasks := butlast ((tasks q)[s := last (tasks q)]),
              num_remaining_tasks := num_remaining_tasks q - 1,
              remaining_local_computation := remaining_local_computation q - work t,
              checked_out_query_subtables :=
                \<lparr>lock_assigned_work = assigned_work q ! s,
                 locked_mpi_rank = world_rank env,
                 lock_query_subtable = query_subtables q ! s,
                 lock_remaining_work_for_query_subtable =
                   remaining_work_for_query_subtables q ! s,
                 lock_task = h\<rparr> # checked_out_query_subtables q,
              num_exported_query_subtables := num_exported_query_subtables q + 1,
              assigned_work := butlast ((assigned_work q)[s := last (assigned_work q)]),
              query_subtables := butlast ((query_subtables q)[s := last (query_subtables q)]),
              remaining_work_for_query_subtables :=
                butlast ((remaining_work_for_query_subtables q)
                           [s := last (remaining_work_for_query_subtables q)])\<rparr>) \<and>
     (heap_sorted (tasks q ! s) \<longrightarrow> (\<forall>x \<in> set (tasks q ! s). task_priority x \<le> task_priority t))"
proof -
  from assms(2) have "swap_with_last s ((tasks q)[s := h]) = swap_with_last s (tasks q)"
    by (rule swap_with_last_update)
  then have u: "butlast ((tasks q)[s := last ((tasks q)[s := h])])
                  = butlast ((tasks q)[s := last (tasks q)])"
    by (simp add: swap_with_last_def)
  from assms show ?thesis
    by (auto simp add: DequeueTask_slot_def parallel_vectors_def Evict_def
        LockQuerySubTable_def CheckOut_def heap_top_def heap_pop_def swap_with_last_def u
        heap_sorted_def)
qed

text \<open>
  The queue of two slots with a task in the first: without a checkout both slots stay,
  the first with an empty heap; with a checkout the first slot becomes the one
  checked-out entry and the records of the second slot are at position 0.
\<close>

theorem DequeueTask_slot_nonempty_witness:
  "DequeueTask_slot ex_env 0 (None, - 1) False ex_queue_two =
     Inr (False, (Some ex_task, 0), None,
          ex_queue_two\<lparr>tasks := [[], []], num_remaining_tasks := 0,
                        remaining_local_computation := 0\<rparr>) \<and>
   DequeueTask_slot ex_env 0 (None, - 1) True ex_queue_two =
     Inr (False, (Some ex_task, 0), Some 0,
          Constructor\<lparr>remaining_global_computation := 6,
            table_exchange := [LockCache 42 1],
            checked_out_query_subtables :=
              [\<lparr>lock_assigned_work = Some [(0, 0, 3)], locked_mpi_rank = 0,
                lock_query_subtable = ex_query,
                lock_remaining_work_for_query_subtable = 3, lock_task = []\<rparr>],
            num_exported_query_subtables := 1,
            assigned_work := [Some []],
            query_subtables := [ex_query\<lparr>start_node := TreeNode 2 1 3 None\<rparr>],
            remaining_work_for_query_subtables := [3],
            tasks := [[]]\<rparr>)"
proof -
  have a: "parallel_vectors ex_queue_two"
    by (simp add: parallel_vectors_def ex_queue_two_def)
  have b: "0 < length (tasks ex_queue_two)"
    by (simp add: ex_queue_two_def)
  have c: "tasks ex_queue_two ! 0 = ex_task # []"
    by (simp add: ex_queue_two_def)
  have w: "work ex_task = 6"
    by (simp add: work_def ex_defs)
  show ?thesis
    using DequeueTask_slot_nonempty [OF a b c, of ex_env "(None, - 1)"]
    by (simp add: w ex_queue_two_def ex_queue_task_def ex_queue_def Constructor_def ex_env_def)
qed

text \<open>
  Locking a slot and returning the entry at once restores every counter (the number of
  exported query subtables among them) and the list of checked-out entries; the slot's
  four records are then at the end of the vectors and the records that were last are at
  position \<open>s\<close>.
\<close>

lemma lock_then_return:
  assumes "parallel_vectors q" and "LockQuerySubTable s r q = Inr (h, q1)"
  shows "ReturnQuerySubTable h q1 =
           Inr (q\<lparr>assigned_work :=
                    butlast ((assigned_work q)[s := last (assigned_work q)])
                      @ [assigned_work q ! s],
                  query_subtables :=
                    butlast ((query_subtables q)[s := last (query_subtables q)])
                      @ [query_subtables q ! s],
                  remaining_work_for_query_subtables :=
                    butlast ((remaining_work_for_query_subtables q)
                               [s := last (remaining_work_for_query_subtables q)])
                      @ [remaining_work_for_query_subtables q ! s],
                  tasks := butlast ((tasks q)[s := last (tasks q)]) @ [tasks q ! s]\<rparr>)"
  using assms
  by (auto simp add: LockQuerySubTable_def CheckOut_def Evict_def ReturnQuerySubTable_def
        Return_def erase_def Let_def swap_with_last_def split: if_splits sum.splits)

text \<open>
  C3. When the heap of slot \<open>s\<close> is empty, \<^verbatim>\<open>DequeueTask\<close> for that slot does one
  of three things. If the slot's table is of this process's rank and its remaining work
  is 0, it evicts the slot by swap-with-last (in each of the four vectors the last
  record overwrites position \<open>s\<close> and the tail is popped) and returns true. If the
  slot's table is of another rank, it queues a flush request for the slot's subtable,
  takes one from the number of imported query subtables, evicts the slot in the same
  way and returns true. Otherwise it returns false and the queue is as it was.
\<close>

theorem DequeueTask_slot_empty:
  assumes "parallel_vectors q" and "s < length (tasks q)" and "tasks q ! s = []"
  shows
    "(table_rank (query_subtables q ! s) = world_rank env \<and>
      remaining_work_for_query_subtables q ! s = 0 \<longrightarrow>
        DequeueTask_slot env s task_out c q =
          Inr (True, task_out, None,
               q\<lparr>assigned_work := butlast ((assigned_work q)[s := last (assigned_work q)]),
                 query_subtables :=
                   butlast ((query_subtables q)[s := last (query_subtables q)]),
                 remaining_work_for_query_subtables :=
                   butlast ((remaining_work_for_query_subtables q)
                              [s := last (remaining_work_for_query_subtables q)]),
                 tasks := butlast ((tasks q)[s := last (tasks q)])\<rparr>)) \<and>
     (table_rank (query_subtables q ! s) \<noteq> world_rank env \<longrightarrow>
        DequeueTask_slot env s task_out c q =
          Inr (True, task_out, None,
               q\<lparr>table_exchange :=
                   table_exchange q @ [QueueFlushRequest (query_subtables q ! s)],
                 num_imported_query_subtables := num_imported_query_subtables q - 1,
                 assigned_work := butlast ((assigned_work q)[s := last (assigned_work q)]),
                 query_subtables :=
                   butlast ((query_subtables q)[s := last (query_subtables q)]),
                 remaining_work_for_query_subtables :=
                   butlast ((remaining_work_for_query_subtables q)
                              [s := last (remaining_work_for_query_subtables q)]),
                 tasks := butlast ((tasks q)[s := last (tasks q)])\<rparr>)) \<and>
     (table_rank (query_subtables q ! s) = world_rank env \<and>
      remaining_work_for_query_subtables q ! s \<noteq> 0 \<longrightarrow>
        DequeueTask_slot env s task_out c q = Inr (False, task_out, None, q))"
  using assms
  by (simp add: DequeueTask_slot_def parallel_vectors_def Evict_def Flush_def
        swap_with_last_def)

text \<open>
  The three cases on the queue of two slots, at slot 0: with no work left the slot is
  evicted and the second slot's four records are at position 0; imported from process
  1 it is flushed and evicted in the same way; with three reference points still to go
  nothing changes.
\<close>

theorem DequeueTask_slot_empty_witness:
  "DequeueTask_slot ex_env 0 (None, - 1) False ex_queue_pair_done =
     Inr (True, (None, - 1), None,
          ex_queue_pair_done\<lparr>assigned_work := [Some [(0, 0, 3)]],
            query_subtables := [ex_second],
            remaining_work_for_query_subtables := [5],
            tasks := [[ex_task_second]]\<rparr>) \<and>
   DequeueTask_slot ex_env 0 (None, - 1) False ex_queue_pair_imported =
     Inr (True, (None, - 1), None,
          ex_queue_pair_imported\<lparr>table_exchange :=
              [LockCache 42 1,
               QueueFlushRequest (ex_query\<lparr>table_rank := 1, originating_rank := 1\<rparr>)],
            num_imported_query_subtables := 0,
            assigned_work := [Some [(0, 0, 3)]],
            query_subtables := [ex_second],
            remaining_work_for_query_subtables := [5],
            tasks := [[ex_task_second]]\<rparr>) \<and>
   DequeueTask_slot ex_env 0 (None, - 1) False ex_queue_pair =
     Inr (False, (None, - 1), None, ex_queue_pair)"
proof -
  have a: "parallel_vectors ex_queue_pair_done \<and> 0 < length (tasks ex_queue_pair_done) \<and>
           tasks ex_queue_pair_done ! 0 = []"
    by (simp add: parallel_vectors_def ex_queue_pair_done_def ex_queue_pair_def)
  have b: "parallel_vectors ex_queue_pair_imported \<and>
           0 < length (tasks ex_queue_pair_imported) \<and>
           tasks ex_queue_pair_imported ! 0 = []"
    by (simp add: parallel_vectors_def ex_queue_pair_imported_def ex_queue_pair_def)
  have c: "parallel_vectors ex_queue_pair \<and> 0 < length (tasks ex_queue_pair) \<and>
           tasks ex_queue_pair ! 0 = []"
    by (simp add: parallel_vectors_def ex_queue_pair_def)
  have "DequeueTask_slot ex_env 0 (None, - 1) False ex_queue_pair_done =
     Inr (True, (None, - 1), None,
          ex_queue_pair_done\<lparr>assigned_work := [Some [(0, 0, 3)]],
            query_subtables := [ex_second],
            remaining_work_for_query_subtables := [5],
            tasks := [[ex_task_second]]\<rparr>)"
    using DequeueTask_slot_empty [of ex_queue_pair_done 0 ex_env "(None, - 1)" False] a
    by (simp add: ex_queue_pair_done_def ex_queue_pair_def ex_query_def ex_env_def)
  moreover have "DequeueTask_slot ex_env 0 (None, - 1) False ex_queue_pair_imported =
     Inr (True, (None, - 1), None,
          ex_queue_pair_imported\<lparr>table_exchange :=
              [LockCache 42 1,
               QueueFlushRequest (ex_query\<lparr>table_rank := 1, originating_rank := 1\<rparr>)],
            num_imported_query_subtables := 0,
            assigned_work := [Some [(0, 0, 3)]],
            query_subtables := [ex_second],
            remaining_work_for_query_subtables := [5],
            tasks := [[ex_task_second]]\<rparr>)"
    using DequeueTask_slot_empty [of ex_queue_pair_imported 0 ex_env "(None, - 1)" False] b
    by (simp add: ex_queue_pair_imported_def ex_queue_pair_def ex_query_def ex_env_def)
  moreover have "DequeueTask_slot ex_env 0 (None, - 1) False ex_queue_pair =
     Inr (False, (None, - 1), None, ex_queue_pair)"
    using DequeueTask_slot_empty [of ex_queue_pair 0 ex_env "(None, - 1)" False] c
    by (simp add: ex_queue_pair_def ex_query_def ex_env_def)
  ultimately show ?thesis by simp
qed

lemma CheckIntegrity_heap_eq:
  "CheckIntegrity_heap d flag h = (flag \<or> list_ex (references d) h)"
  by (induction h arbitrary: flag) auto

lemma CheckIntegrity_active_scan:
  "k \<le> length ts \<Longrightarrow>
   CheckIntegrity_active d [k ..< length ts] ts flag = integrity_scan d (drop k ts) flag"
proof (induction "length ts - k" arbitrary: k flag)
  case 0
  then show ?case by simp
next
  case (Suc n)
  then have k: "k < length ts" by simp
  then have up: "[k ..< length ts] = k # [Suc k ..< length ts]"
    by (simp add: upt_conv_Cons)
  have dr: "drop k ts = ts ! k # drop (Suc k) ts"
    using k by (simp add: Cons_nth_drop_Suc)
  have ih: "\<And>f. CheckIntegrity_active d [Suc k ..< length ts] ts f
             = integrity_scan d (drop (Suc k) ts) f"
    using Suc.hyps(1) [of "Suc k"] Suc.hyps(2) k by simp
  show ?case
    using k by (simp add: up dr ih heap_top_def CheckIntegrity_heap_eq split: list.splits)
qed

lemma CheckIntegrity_checked_out_scan:
  "CheckIntegrity_checked_out d es flag = integrity_scan d (map lock_task es) flag"
  by (induction es arbitrary: flag)
     (simp_all add: heap_top_def CheckIntegrity_heap_eq split: list.splits)

lemma integrity_scan_append:
  "integrity_scan d (xs @ ys) flag =
     (case integrity_scan d xs flag of Inl e \<Rightarrow> Inl e | Inr f \<Rightarrow> integrity_scan d ys f)"
proof (induction xs arbitrary: flag)
  case Nil
  then show ?case by simp
next
  case (Cons h xs)
  have t: "integrity_scan d ys True = Inr True" by (cases ys) simp_all
  show ?case using Cons by (simp add: t)
qed

lemma CheckIntegrity_scan:
  assumes "parallel_vectors q"
  shows "CheckIntegrity d q = integrity_scan d (scanned_heaps q) False"
proof -
  from assms have "length (query_subtables q) = length (tasks q)"
    by (simp add: parallel_vectors_def)
  then show ?thesis
    using CheckIntegrity_active_scan [of 0 "tasks q" d False]
    by (simp add: CheckIntegrity_def scanned_heaps_def integrity_scan_append
          CheckIntegrity_checked_out_scan split: sum.splits)
qed

lemma integrity_scan_isl:
  "isl (integrity_scan d hs flag) \<longleftrightarrow>
     (\<not> flag \<and> (\<exists>n<length hs. hs ! n = [] \<and> (\<forall>m<n. \<not> list_ex (references d) (hs ! m))))"
proof (induction hs arbitrary: flag)
  case Nil
  then show ?case by simp
next
  case (Cons h hs)
  show ?case
  proof (cases "flag \<or> h = []")
    case True
    then show ?thesis by auto
  next
    case False
    then have nf: "\<not> flag" and nh: "h \<noteq> []" by auto
    have "(\<exists>n<length (h # hs). (h # hs) ! n = [] \<and> (\<forall>m<n. \<not> list_ex (references d) ((h # hs) ! m)))
          \<longleftrightarrow> (\<not> list_ex (references d) h \<and>
               (\<exists>n<length hs. hs ! n = [] \<and> (\<forall>m<n. \<not> list_ex (references d) (hs ! m))))"
      (is "?L \<longleftrightarrow> ?R")
    proof
      assume ?L
      then obtain n where n: "n < length (h # hs)" "(h # hs) ! n = []"
        "\<forall>m<n. \<not> list_ex (references d) ((h # hs) ! m)" by blast
      from n(2) nh obtain n' where n': "n = Suc n'" by (cases n) auto
      from n(3) n' have "\<not> list_ex (references d) h" by (auto dest: spec [of _ 0])
      moreover from n n' have "n' < length hs" "hs ! n' = []" by auto
      moreover from n(3) n' have "\<forall>m<n'. \<not> list_ex (references d) (hs ! m)"
        by (auto dest: spec [of _ "Suc m" for m])
      ultimately show ?R by blast
    next
      assume ?R
      then obtain n where n: "\<not> list_ex (references d) h" "n < length hs" "hs ! n = []"
        "\<forall>m<n. \<not> list_ex (references d) (hs ! m)" by blast
      have "\<forall>m<Suc n. \<not> list_ex (references d) ((h # hs) ! m)"
        using n(1,4) by (auto simp: nth_Cons')
      with n(2,3) show ?L by (intro exI [of _ "Suc n"]) simp
    qed
    with nf nh Cons show ?thesis by simp
  qed
qed

lemma integrity_scan_error:
  "integrity_scan d hs flag = Inl e \<Longrightarrow> e = EmptyHeap"
  by (induction hs arbitrary: flag) (auto split: if_splits)

lemma integrity_scan_defined:
  "[] \<notin> set hs \<Longrightarrow>
   integrity_scan d hs flag = Inr (flag \<or> (\<exists>h\<in>set hs. list_ex (references d) h))"
proof (induction hs arbitrary: flag)
  case Nil
  then show ?case by simp
next
  case (Cons h hs)
  then show ?case by (cases flag) auto
qed

lemma Print_active_isl:
  assumes "parallel_vectors q" and "k \<le> length (tasks q)"
  shows "(isl (Print_active [k ..< length (tasks q)] q) \<longleftrightarrow> [] \<in> set (drop k (tasks q))) \<and>
         (\<forall>e. Print_active [k ..< length (tasks q)] q = Inl e \<longrightarrow> e = EmptyHeap)"
  using assms(2)
proof (induction "length (tasks q) - k" arbitrary: k)
  case 0
  then show ?case by simp
next
  case (Suc n)
  then have k: "k < length (tasks q)" by simp
  then have up: "[k ..< length (tasks q)] = k # [Suc k ..< length (tasks q)]"
    by (simp add: upt_conv_Cons)
  have dr: "drop k (tasks q) = tasks q ! k # drop (Suc k) (tasks q)"
    using k by (simp add: Cons_nth_drop_Suc)
  have ih: "(isl (Print_active [Suc k ..< length (tasks q)] q)
              \<longleftrightarrow> [] \<in> set (drop (Suc k) (tasks q))) \<and>
         (\<forall>e. Print_active [Suc k ..< length (tasks q)] q = Inl e \<longrightarrow> e = EmptyHeap)"
    using Suc.hyps(1) [of "Suc k"] Suc.hyps(2) k by simp
  from assms(1) k have rng: "k < length (query_subtables q)"
    "k < length (remaining_work_for_query_subtables q)"
    by (simp_all add: parallel_vectors_def)
  show ?case
    using k rng ih
    by (cases "Print_active [Suc k ..< length (tasks q)] q")
       (auto simp add: up dr heap_top_def split: list.splits)
qed

lemma Print_checked_out_isl:
  "(isl (Print_checked_out es) \<longleftrightarrow> [] \<in> set (map lock_task es)) \<and>
   (\<forall>e. Print_checked_out es = Inl e \<longrightarrow> e = EmptyHeap)"
proof (induction es)
  case Nil
  then show ?case by simp
next
  case (Cons a es)
  then show ?case
    by (cases "Print_checked_out es") (auto simp add: heap_top_def split: list.splits)
qed

text \<open>
  C10, as the code has it. \<^verbatim>\<open>Print\<close> takes the top of every heap, of the active
  slots and of the checked-out entries, before it looks at the size: it reads the top
  of an empty heap exactly when some heap is empty. \<^verbatim>\<open>CheckIntegrity\<close> does the
  same to the heaps it visits, and it stops visiting once a task that references the id
  has been found: it reads the top of an empty heap exactly when an empty heap comes
  before every heap with such a task. Nothing else is undefined in either function,
  and when no heap is empty \<^verbatim>\<open>CheckIntegrity\<close> says whether some task references
  the id.
\<close>

theorem observers_top_of_empty_heap:
  assumes "parallel_vectors q"
  shows "(isl (Print q) \<longleftrightarrow> [] \<in> set (scanned_heaps q)) \<and>
         (isl (CheckIntegrity d q) \<longleftrightarrow>
            (\<exists>n<length (scanned_heaps q). scanned_heaps q ! n = [] \<and>
               (\<forall>m<n. \<not> list_ex (references d) (scanned_heaps q ! m)))) \<and>
         (\<forall>e. Print q = Inl e \<or> CheckIntegrity d q = Inl e \<longrightarrow> e = EmptyHeap) \<and>
         ([] \<notin> set (scanned_heaps q) \<longrightarrow>
            CheckIntegrity d q =
              Inr (\<exists>h\<in>set (scanned_heaps q). list_ex (references d) h))"
proof -
  from assms have len: "length (query_subtables q) = length (tasks q)"
    by (simp add: parallel_vectors_def)
  note pa = Print_active_isl [OF assms, of 0, simplified]
  note pc = Print_checked_out_isl [of "checked_out_query_subtables q"]
  have p1: "isl (Print q) \<longleftrightarrow> [] \<in> set (scanned_heaps q)"
    using pa pc
    by (cases "Print_active [0 ..< length (tasks q)] q";
        cases "Print_checked_out (checked_out_query_subtables q)")
       (auto simp add: Print_def len scanned_heaps_def)
  have p2: "\<forall>e. Print q = Inl e \<longrightarrow> e = EmptyHeap"
    using pa pc
    by (cases "Print_active [0 ..< length (tasks q)] q";
        cases "Print_checked_out (checked_out_query_subtables q)")
       (auto simp add: Print_def len)
  note c = CheckIntegrity_scan [OF assms, of d]
  show ?thesis
    using p1 p2 integrity_scan_isl [of d "scanned_heaps q" False]
      integrity_scan_error [of d "scanned_heaps q" False]
      integrity_scan_defined [of "scanned_heaps q" d False]
    by (auto simp add: c)
qed

text \<open>
  With an empty heap in the second slot \<^verbatim>\<open>Print\<close> is undefined, and so is
  \<^verbatim>\<open>CheckIntegrity\<close> for an id no task references; with the one task alone both
  are defined.
\<close>

theorem observers_top_of_empty_heap_witness:
  "parallel_vectors ex_queue_two \<and>
   isl (Print ex_queue_two) \<and>
   isl (CheckIntegrity (9, 9, 9) ex_queue_two) \<and>
   parallel_vectors ex_queue_task \<and>
   isl (Print ex_queue_task) = False \<and>
   CheckIntegrity (0, 0, 3) ex_queue_task = Inr True \<and>
   CheckIntegrity (9, 9, 9) ex_queue_task = Inr False"
proof -
  have pv2: "parallel_vectors ex_queue_two"
    by (simp add: parallel_vectors_def ex_queue_two_def)
  have pv1: "parallel_vectors ex_queue_task"
    by (simp add: parallel_vectors_def ex_queue_task_def ex_queue_def Constructor_def)
  have h2: "scanned_heaps ex_queue_two = [[ex_task], []]"
    by (simp add: scanned_heaps_def ex_queue_two_def ex_queue_task_def ex_queue_def
          Constructor_def)
  have h1: "scanned_heaps ex_queue_task = [[ex_task]]"
    by (simp add: scanned_heaps_def ex_queue_task_def ex_queue_def Constructor_def)
  have id: "subtable_id (task_reference_subtable ex_task) = (0, 0, 3)"
    by (simp add: subtable_id_def ex_task_def new_task_def ex_reference_def)
  have "isl (Print ex_queue_two)"
    using observers_top_of_empty_heap [OF pv2, of "(9, 9, 9)"] by (simp add: h2)
  moreover have "isl (CheckIntegrity (9, 9, 9) ex_queue_two)"
  proof -
    have "\<exists>n<length (scanned_heaps ex_queue_two). scanned_heaps ex_queue_two ! n = [] \<and>
            (\<forall>m<n. \<not> list_ex (references (9, 9, 9)) (scanned_heaps ex_queue_two ! m))"
      by (rule exI [of _ 1]) (simp add: h2 references_def id)
    with observers_top_of_empty_heap [OF pv2, of "(9, 9, 9)"] show ?thesis by blast
  qed
  moreover have "isl (Print ex_queue_task) = False"
    using observers_top_of_empty_heap [OF pv1, of "(9, 9, 9)"] by (simp add: h1)
  moreover have "CheckIntegrity (0, 0, 3) ex_queue_task = Inr True"
    using observers_top_of_empty_heap [OF pv1, of "(0, 0, 3)"]
    by (simp add: h1 references_def id)
  moreover have "CheckIntegrity (9, 9, 9) ex_queue_task = Inr False"
    using observers_top_of_empty_heap [OF pv1, of "(9, 9, 9)"]
    by (simp add: h1 references_def id)
  ultimately show ?thesis using pv1 pv2 by simp
qed

text \<open>
  C10 as stated fails for \<^verbatim>\<open>CheckIntegrity\<close>: the second slot's heap is empty, the
  task of the first slot references the id, and the scan ends there with the answer
  true.
\<close>

theorem CheckIntegrity_skips_empty_heap_counterexample:
  "[] \<in> set (scanned_heaps ex_queue_two) \<and>
   CheckIntegrity (0, 0, 3) ex_queue_two = Inr True"
  by (simp add: scanned_heaps_def CheckIntegrity_def heap_top_def references_def
        subtable_id_def ex_queue_two_def ex_queue_task_def ex_queue_def Constructor_def
        ex_task_def new_task_def ex_reference_def)

lemma split_drain_all:
  "s < length (tasks q) \<Longrightarrow> tasks q ! s = h \<Longrightarrow>
   split_drain env s prev q =
     Inr (prev @ h,
          q\<lparr>tasks := (tasks q)[s := []],
            num_remaining_tasks := num_remaining_tasks q - of_nat (length h),
            remaining_local_computation :=
              remaining_local_computation q - sum_list (map work h)\<rparr>)"
proof (induction h arbitrary: q prev)
  case Nil
  then have "(tasks q)[s := []] = tasks q"
    by (metis list_update_id)
  with Nil show ?case
    by (subst split_drain.simps) simp
next
  case (Cons t ts)
  let ?q1 = "q\<lparr>tasks := (tasks q)[s := ts],
               num_remaining_tasks := num_remaining_tasks q - 1,
               remaining_local_computation := remaining_local_computation q - work t\<rparr>"
  have d: "DequeueTask_slot env s (None, 0) False q = Inr (False, (Some t, of_nat s), None, ?q1)"
    using Cons.prems by (simp add: DequeueTask_slot_def heap_top_def heap_pop_def)
  have ih: "split_drain env s (prev @ [t]) ?q1 =
     Inr ((prev @ [t]) @ ts,
          ?q1\<lparr>tasks := (tasks ?q1)[s := []],
            num_remaining_tasks := num_remaining_tasks ?q1 - of_nat (length ts),
            remaining_local_computation :=
              remaining_local_computation ?q1 - sum_list (map work ts)\<rparr>)"
    using Cons.prems by (intro Cons.IH) simp_all
  show ?case
    using Cons.prems
    by (subst split_drain.simps) (simp add: d ih algebra_simps)
qed

lemma list_update_twice:
  assumes "i \<noteq> j"
  shows "xs[i := a, j := b, i := c, j := d] = xs[i := c, j := d]"
proof -
  have "xs[i := a, j := b, i := c] = xs[i := a, i := c, j := b]"
    using assms by (simp add: list_update_swap [of j i])
  then show ?thesis by simp
qed

lemma split_push_all:
  assumes "length (query_subtables q) = length (tasks q)"
    and "s < length (query_subtables q) - 1"
  shows "split_push env s prev q =
     Inr (q\<lparr>tasks :=
              (tasks q)
                [s := fold (\<lambda>t. heap_push (new_task env (query_subtables q ! s)
                                              (task_reference_subtable t)))
                        prev (tasks q ! s),
                 length (query_subtables q) - 1 :=
                   fold (\<lambda>t. heap_push
                               (new_task env
                                  (query_subtables q ! (length (query_subtables q) - 1))
                                  (task_reference_subtable t)))
                        prev (tasks q ! (length (query_subtables q) - 1))],
            num_remaining_tasks := num_remaining_tasks q + 2 * of_nat (length prev),
            remaining_local_computation :=
              remaining_local_computation q
                + sum_list (map (\<lambda>t. work (new_task env (query_subtables q ! s)
                                              (task_reference_subtable t))
                                     + work (new_task env
                                         (query_subtables q ! (length (query_subtables q) - 1))
                                         (task_reference_subtable t))) prev),
            table_exchange :=
              table_exchange q
                @ map (\<lambda>t. LockCache (reference_subtable_cache_block_id t) 1) prev\<rparr>)"
  using assms
proof (induction prev arbitrary: q)
  case Nil
  then show ?case by simp
next
  case (Cons t ts)
  let ?r = "length (query_subtables q) - 1"
  let ?L = "new_task env (query_subtables q ! s) (task_reference_subtable t)"
  let ?R = "new_task env (query_subtables q ! ?r) (task_reference_subtable t)"
  let ?q1 = "q\<lparr>tasks := (tasks q)[s := heap_push ?L (tasks q ! s)],
               num_remaining_tasks := num_remaining_tasks q + 1,
               remaining_local_computation := remaining_local_computation q + work ?L\<rparr>"
  let ?q2 = "?q1\<lparr>tasks := (tasks ?q1)[?r := heap_push ?R (tasks ?q1 ! ?r)],
               num_remaining_tasks := num_remaining_tasks ?q1 + 1,
               remaining_local_computation := remaining_local_computation ?q1 + work ?R\<rparr>"
  let ?q3 = "?q2\<lparr>table_exchange :=
                    table_exchange ?q2 @ [LockCache (reference_subtable_cache_block_id t) 1]\<rparr>"
  from Cons.prems have s: "s < length (tasks q)" "s < length (query_subtables q)"
    "?r < length (tasks q)" "?r < length (query_subtables q)" "s \<noteq> ?r"
    by simp_all
  have p1: "PushTask env s (task_reference_subtable t) q = Inr ?q1"
    using s by (simp add: PushTask_def Let_def)
  have p2: "PushTask env (length (query_subtables ?q1) - 1) (task_reference_subtable t) ?q1
              = Inr ?q2"
    using s by (simp add: PushTask_def Let_def)
  have ih: "split_push env s ts ?q3 = Inr (?q3\<lparr>tasks :=
              (tasks ?q3)
                [s := fold (\<lambda>t. heap_push (new_task env (query_subtables ?q3 ! s)
                                              (task_reference_subtable t)))
                        ts (tasks ?q3 ! s),
                 length (query_subtables ?q3) - 1 :=
                   fold (\<lambda>t. heap_push
                               (new_task env
                                  (query_subtables ?q3 ! (length (query_subtables ?q3) - 1))
                                  (task_reference_subtable t)))
                        ts (tasks ?q3 ! (length (query_subtables ?q3) - 1))],
            num_remaining_tasks := num_remaining_tasks ?q3 + 2 * of_nat (length ts),
            remaining_local_computation :=
              remaining_local_computation ?q3
                + sum_list (map (\<lambda>t. work (new_task env (query_subtables ?q3 ! s)
                                              (task_reference_subtable t))
                                     + work (new_task env
                                         (query_subtables ?q3 ! (length (query_subtables ?q3) - 1))
                                         (task_reference_subtable t))) ts),
            table_exchange :=
              table_exchange ?q3
                @ map (\<lambda>t. LockCache (reference_subtable_cache_block_id t) 1) ts\<rparr>)"
    using Cons.prems by (intro Cons.IH) simp_all
  have "split_push env s (t # ts) q = split_push env s ts ?q3"
    using p1 p2 by simp
  also note ih
  finally have e: "split_push env s (t # ts) q = Inr (?q3\<lparr>tasks :=
              (tasks ?q3)
                [s := fold (\<lambda>t. heap_push (new_task env (query_subtables ?q3 ! s)
                                              (task_reference_subtable t)))
                        ts (tasks ?q3 ! s),
                 length (query_subtables ?q3) - 1 :=
                   fold (\<lambda>t. heap_push
                               (new_task env
                                  (query_subtables ?q3 ! (length (query_subtables ?q3) - 1))
                                  (task_reference_subtable t)))
                        ts (tasks ?q3 ! (length (query_subtables ?q3) - 1))],
            num_remaining_tasks := num_remaining_tasks ?q3 + 2 * of_nat (length ts),
            remaining_local_computation :=
              remaining_local_computation ?q3
                + sum_list (map (\<lambda>t. work (new_task env (query_subtables ?q3 ! s)
                                              (task_reference_subtable t))
                                     + work (new_task env
                                         (query_subtables ?q3 ! (length (query_subtables ?q3) - 1))
                                         (task_reference_subtable t))) ts),
            table_exchange :=
              table_exchange ?q3
                @ map (\<lambda>t. LockCache (reference_subtable_cache_block_id t) 1) ts\<rparr>)" .
  show ?case
    unfolding e using s by (simp add: algebra_simps list_update_twice)
qed


lemma mset_heap_push: "mset (heap_push t h) = add_mset t (mset h)"
  by (induction h) simp_all

lemma mset_fold_heap_push:
  "mset (fold (\<lambda>t. heap_push (f t)) xs h) = image_mset f (mset xs) + mset h"
  by (induction xs arbitrary: h) (simp_all add: mset_heap_push)

lemma split_subtree_result:
  assumes "parallel_vectors q" and "s < length (query_subtables q)"
    and "node_children (start_node (query_subtables q ! s)) = Some (left, right)"
    and "assigned_work q ! s = Some ivs"
  shows
    "split_subtree env s q =
       Inr (q\<lparr>query_subtables :=
                (query_subtables q)[s := (query_subtables q ! s)\<lparr>start_node := left\<rparr>]
                  @ [(query_subtables q ! s)\<lparr>start_node := right\<rparr>],
              tasks :=
                (tasks q)
                  [s := fold (\<lambda>t. heap_push
                                (new_task env ((query_subtables q ! s)\<lparr>start_node := left\<rparr>)
                                   (task_reference_subtable t)))
                          (tasks q ! s) []]
                  @ [fold (\<lambda>t. heap_push
                                (new_task env ((query_subtables q ! s)\<lparr>start_node := right\<rparr>)
                                   (task_reference_subtable t)))
                          (tasks q ! s) []],
              assigned_work := assigned_work q @ [Some ivs],
              remaining_work_for_query_subtables :=
                remaining_work_for_query_subtables q
                  @ [remaining_work_for_query_subtables q ! s],
              num_remaining_tasks :=
                num_remaining_tasks q - of_nat (length (tasks q ! s))
                  + 2 * of_nat (length (tasks q ! s)),
              remaining_local_computation :=
                remaining_local_computation q - sum_list (map work (tasks q ! s))
                  + sum_list
                      (map (\<lambda>t. work (new_task env
                                         ((query_subtables q ! s)\<lparr>start_node := left\<rparr>)
                                         (task_reference_subtable t))
                                + work (new_task env
                                         ((query_subtables q ! s)\<lparr>start_node := right\<rparr>)
                                         (task_reference_subtable t)))
                         (tasks q ! s)),
              table_exchange :=
                table_exchange q
                  @ map (\<lambda>t. LockCache (reference_subtable_cache_block_id t) 1)
                      (tasks q ! s)\<rparr>)"
proof -
  let ?L = "(query_subtables q ! s)\<lparr>start_node := left\<rparr>"
  let ?R = "(query_subtables q ! s)\<lparr>start_node := right\<rparr>"
  let ?h = "tasks q ! s"
  from assms(1,2) have len: "s < length (tasks q)" "s < length (assigned_work q)"
    "s < length (remaining_work_for_query_subtables q)"
    "length (tasks q) = length (query_subtables q)"
    by (simp_all add: parallel_vectors_def)
  let ?q2 = "q\<lparr>query_subtables := (query_subtables q)[s := ?L] @ [?R]\<rparr>"
  let ?q3 = "?q2\<lparr>tasks := (tasks ?q2)[s := []],
                num_remaining_tasks := num_remaining_tasks ?q2 - of_nat (length ?h),
                remaining_local_computation :=
                  remaining_local_computation ?q2 - sum_list (map work ?h)\<rparr>"
  let ?q4 = "?q3\<lparr>tasks := tasks ?q3 @ [[]],
                assigned_work := assigned_work ?q3 @ [Some ivs],
                remaining_work_for_query_subtables :=
                  remaining_work_for_query_subtables ?q3
                    @ [remaining_work_for_query_subtables ?q3 ! s]\<rparr>"
  have drain: "split_drain env s [] ?q2 = Inr ([] @ ?h, ?q3)"
    using len by (intro split_drain_all) simp_all
  have l4: "length (query_subtables ?q4) = length (tasks ?q4)"
    "s < length (query_subtables ?q4) - 1"
    using len assms(2) by simp_all
  note push = split_push_all [OF l4, of env ?h]
  have "split_subtree env s q = split_push env s ?h ?q4"
    using assms(2,3,4) len drain
    by (simp add: split_subtree_def Let_def Alias_def)
  also note push
  finally have e: "split_subtree env s q = Inr (?q4\<lparr>tasks :=
              (tasks ?q4)
                [s := fold (\<lambda>t. heap_push (new_task env (query_subtables ?q4 ! s)
                                              (task_reference_subtable t)))
                        ?h (tasks ?q4 ! s),
                 length (query_subtables ?q4) - 1 :=
                   fold (\<lambda>t. heap_push
                               (new_task env
                                  (query_subtables ?q4 ! (length (query_subtables ?q4) - 1))
                                  (task_reference_subtable t)))
                        ?h (tasks ?q4 ! (length (query_subtables ?q4) - 1))],
            num_remaining_tasks := num_remaining_tasks ?q4 + 2 * of_nat (length ?h),
            remaining_local_computation :=
              remaining_local_computation ?q4
                + sum_list (map (\<lambda>t. work (new_task env (query_subtables ?q4 ! s)
                                              (task_reference_subtable t))
                                     + work (new_task env
                                         (query_subtables ?q4 ! (length (query_subtables ?q4) - 1))
                                         (task_reference_subtable t))) ?h),
            table_exchange :=
              table_exchange ?q4
                @ map (\<lambda>t. LockCache (reference_subtable_cache_block_id t) 1) ?h\<rparr>)" .
  show ?thesis
    unfolding e using len assms(2)
    by (simp add: nth_append list_update_append)
qed

lemma split_subtree_null:
  assumes "parallel_vectors q" and "s < length (query_subtables q)"
    and "node_children (start_node (query_subtables q ! s)) = Some (left, right)"
    and "assigned_work q ! s = None"
  shows "split_subtree env s q = Inl NullPointer"
proof -
  let ?L = "(query_subtables q ! s)\<lparr>start_node := left\<rparr>"
  let ?R = "(query_subtables q ! s)\<lparr>start_node := right\<rparr>"
  let ?q2 = "q\<lparr>query_subtables := (query_subtables q)[s := ?L] @ [?R]\<rparr>"
  from assms(1,2) have len: "s < length (tasks q)" "s < length (assigned_work q)"
    "s < length (remaining_work_for_query_subtables q)"
    by (simp_all add: parallel_vectors_def)
  have drain: "split_drain env s [] ?q2 =
     Inr ([] @ tasks q ! s,
          ?q2\<lparr>tasks := (tasks ?q2)[s := []],
            num_remaining_tasks := num_remaining_tasks ?q2 - of_nat (length (tasks q ! s)),
            remaining_local_computation :=
              remaining_local_computation ?q2 - sum_list (map work (tasks q ! s))\<rparr>)"
    using len by (intro split_drain_all) simp_all
  show ?thesis
    using assms(2,3,4) len drain
    by (simp add: split_subtree_def Let_def Alias_def)
qed

text \<open>
  C6. In a queue whose four vectors have one length, for a slot \<open>s\<close> whose subtree has
  children: when the slot's assigned work is there (the pointer is not null),
  \<^verbatim>\<open>split_subtree_\<close> puts the left child in place of the slot's subtree and appends
  one slot: the right child, a copy of the assigned work, the same remaining work. The
  heap of \<open>s\<close> is drained; for every drained task, in the order drained, the reference
  subtable is pushed once to slot \<open>s\<close> and once to the new slot, with the slot's new
  subtable as the query side and the priority minus the midpoint of the squared distance
  range between the child's bound and the reference's bound, and the cache block of the
  reference is locked once. As multisets, either heap is the image of the drained tasks.
  With nothing to drain the two heaps are empty and the counters stay. When the slot's
  assigned work is a null pointer, as \<^verbatim>\<open>PushNewQueue\<close> leaves it, the copy
  constructor follows the null pointer.
\<close>

theorem split_subtree_effect:
  assumes "parallel_vectors q" and "s < length (query_subtables q)"
    and "node_children (start_node (query_subtables q ! s)) = Some (left, right)"
  shows
    "(\<forall>ivs. assigned_work q ! s = Some ivs \<longrightarrow>
       split_subtree env s q =
         Inr (q\<lparr>query_subtables :=
                  (query_subtables q)[s := (query_subtables q ! s)\<lparr>start_node := left\<rparr>]
                    @ [(query_subtables q ! s)\<lparr>start_node := right\<rparr>],
                tasks :=
                  (tasks q)
                    [s := fold (\<lambda>t. heap_push
                              \<lparr>task_query_subtable =
                                 (query_subtables q ! s)\<lparr>start_node := left\<rparr>,
                               task_reference_subtable = task_reference_subtable t,
                               task_priority =
                                 - metric_mid env (node_bound left)
                                     (node_bound (start_node (task_reference_subtable t)))\<rparr>)
                            (tasks q ! s) []]
                    @ [fold (\<lambda>t. heap_push
                              \<lparr>task_query_subtable =
                                 (query_subtables q ! s)\<lparr>start_node := right\<rparr>,
                               task_reference_subtable = task_reference_subtable t,
                               task_priority =
                                 - metric_mid env (node_bound right)
                                     (node_bound (start_node (task_reference_subtable t)))\<rparr>)
                            (tasks q ! s) []],
                assigned_work := assigned_work q @ [Some ivs],
                remaining_work_for_query_subtables :=
                  remaining_work_for_query_subtables q
                    @ [remaining_work_for_query_subtables q ! s],
                num_remaining_tasks :=
                  num_remaining_tasks q - of_nat (length (tasks q ! s))
                    + 2 * of_nat (length (tasks q ! s)),
                remaining_local_computation :=
                  remaining_local_computation q - sum_list (map work (tasks q ! s))
                    + sum_list
                        (map (\<lambda>t. work (new_task env
                                           ((query_subtables q ! s)\<lparr>start_node := left\<rparr>)
                                           (task_reference_subtable t))
                                  + work (new_task env
                                           ((query_subtables q ! s)\<lparr>start_node := right\<rparr>)
                                           (task_reference_subtable t)))
                           (tasks q ! s)),
                table_exchange :=
                  table_exchange q
                    @ map (\<lambda>t. LockCache (reference_subtable_cache_block_id t) 1)
                        (tasks q ! s)\<rparr>)) \<and>
     mset (fold (\<lambda>t. heap_push
                   \<lparr>task_query_subtable = (query_subtables q ! s)\<lparr>start_node := left\<rparr>,
                    task_reference_subtable = task_reference_subtable t,
                    task_priority =
                      - metric_mid env (node_bound left)
                          (node_bound (start_node (task_reference_subtable t)))\<rparr>)
             (tasks q ! s) [])
       = image_mset
           (\<lambda>t. \<lparr>task_query_subtable = (query_subtables q ! s)\<lparr>start_node := left\<rparr>,
                 task_reference_subtable = task_reference_subtable t,
                 task_priority =
                   - metric_mid env (node_bound left)
                       (node_bound (start_node (task_reference_subtable t)))\<rparr>)
           (mset (tasks q ! s)) \<and>
     mset (fold (\<lambda>t. heap_push
                   \<lparr>task_query_subtable = (query_subtables q ! s)\<lparr>start_node := right\<rparr>,
                    task_reference_subtable = task_reference_subtable t,
                    task_priority =
                      - metric_mid env (node_bound right)
                          (node_bound (start_node (task_reference_subtable t)))\<rparr>)
             (tasks q ! s) [])
       = image_mset
           (\<lambda>t. \<lparr>task_query_subtable = (query_subtables q ! s)\<lparr>start_node := right\<rparr>,
                 task_reference_subtable = task_reference_subtable t,
                 task_priority =
                   - metric_mid env (node_bound right)
                       (node_bound (start_node (task_reference_subtable t)))\<rparr>)
           (mset (tasks q ! s)) \<and>
     (assigned_work q ! s = None \<longrightarrow> split_subtree env s q = Inl NullPointer)"
proof (intro conjI allI impI)
  fix ivs assume "assigned_work q ! s = Some ivs"
  from split_subtree_result [OF assms this, of env]
  show "split_subtree env s q =
         Inr (q\<lparr>query_subtables :=
                  (query_subtables q)[s := (query_subtables q ! s)\<lparr>start_node := left\<rparr>]
                    @ [(query_subtables q ! s)\<lparr>start_node := right\<rparr>],
                tasks :=
                  (tasks q)
                    [s := fold (\<lambda>t. heap_push
                              \<lparr>task_query_subtable =
                                 (query_subtables q ! s)\<lparr>start_node := left\<rparr>,
                               task_reference_subtable = task_reference_subtable t,
                               task_priority =
                                 - metric_mid env (node_bound left)
                                     (node_bound (start_node (task_reference_subtable t)))\<rparr>)
                            (tasks q ! s) []]
                    @ [fold (\<lambda>t. heap_push
                              \<lparr>task_query_subtable =
                                 (query_subtables q ! s)\<lparr>start_node := right\<rparr>,
                               task_reference_subtable = task_reference_subtable t,
                               task_priority =
                                 - metric_mid env (node_bound right)
                                     (node_bound (start_node (task_reference_subtable t)))\<rparr>)
                            (tasks q ! s) []],
                assigned_work := assigned_work q @ [Some ivs],
                remaining_work_for_query_subtables :=
                  remaining_work_for_query_subtables q
                    @ [remaining_work_for_query_subtables q ! s],
                num_remaining_tasks :=
                  num_remaining_tasks q - of_nat (length (tasks q ! s))
                    + 2 * of_nat (length (tasks q ! s)),
                remaining_local_computation :=
                  remaining_local_computation q - sum_list (map work (tasks q ! s))
                    + sum_list
                        (map (\<lambda>t. work (new_task env
                                           ((query_subtables q ! s)\<lparr>start_node := left\<rparr>)
                                           (task_reference_subtable t))
                                  + work (new_task env
                                           ((query_subtables q ! s)\<lparr>start_node := right\<rparr>)
                                           (task_reference_subtable t)))
                           (tasks q ! s)),
                table_exchange :=
                  table_exchange q
                    @ map (\<lambda>t. LockCache (reference_subtable_cache_block_id t) 1)
                        (tasks q ! s)\<rparr>)"
    by (simp add: new_task_def process_rank_favor_factor_def)
next
  show "mset (fold (\<lambda>t. heap_push
                   \<lparr>task_query_subtable = (query_subtables q ! s)\<lparr>start_node := left\<rparr>,
                    task_reference_subtable = task_reference_subtable t,
                    task_priority =
                      - metric_mid env (node_bound left)
                          (node_bound (start_node (task_reference_subtable t)))\<rparr>)
             (tasks q ! s) [])
       = image_mset
           (\<lambda>t. \<lparr>task_query_subtable = (query_subtables q ! s)\<lparr>start_node := left\<rparr>,
                 task_reference_subtable = task_reference_subtable t,
                 task_priority =
                   - metric_mid env (node_bound left)
                       (node_bound (start_node (task_reference_subtable t)))\<rparr>)
           (mset (tasks q ! s))"
    by (simp add: mset_fold_heap_push)
next
  show "mset (fold (\<lambda>t. heap_push
                   \<lparr>task_query_subtable = (query_subtables q ! s)\<lparr>start_node := right\<rparr>,
                    task_reference_subtable = task_reference_subtable t,
                    task_priority =
                      - metric_mid env (node_bound right)
                          (node_bound (start_node (task_reference_subtable t)))\<rparr>)
             (tasks q ! s) [])
       = image_mset
           (\<lambda>t. \<lparr>task_query_subtable = (query_subtables q ! s)\<lparr>start_node := right\<rparr>,
                 task_reference_subtable = task_reference_subtable t,
                 task_priority =
                   - metric_mid env (node_bound right)
                       (node_bound (start_node (task_reference_subtable t)))\<rparr>)
           (mset (tasks q ! s))"
    by (simp add: mset_fold_heap_push)
next
  assume "assigned_work q ! s = None"
  from split_subtree_null [OF assms this] show "split_subtree env s q = Inl NullPointer" .
qed

text \<open>
  The root of the small query tree is split into its two leaves, once with the one
  task in the heap (the two new tasks have the priorities \<open>- (1 + 5)\<close> and
  \<open>- (2 + 5)\<close>) and once with the heap empty. The queue that has imported the query
  tree and been given a task for it is reached by three calls from outside; its slot
  has children and a null pointer for its assigned work, splitting it follows the null
  pointer, and so does \<^verbatim>\<open>DequeueTask\<close> for a thread, which finds one slot for two
  threads and tries to split it.
\<close>

theorem split_subtree_effect_witness:
  "split_subtree ex_env 0 ex_queue_task =
     Inr (ex_queue_task
            \<lparr>query_subtables :=
               [ex_query\<lparr>start_node := ex_left\<rparr>, ex_query\<lparr>start_node := ex_right\<rparr>],
             tasks :=
               [[\<lparr>task_query_subtable = ex_query\<lparr>start_node := ex_left\<rparr>,
                  task_reference_subtable = ex_reference, task_priority = - 6\<rparr>],
                [\<lparr>task_query_subtable = ex_query\<lparr>start_node := ex_right\<rparr>,
                  task_reference_subtable = ex_reference, task_priority = - 7\<rparr>]],
             assigned_work := [Some [(0, 0, 3)], Some [(0, 0, 3)]],
             remaining_work_for_query_subtables := [3, 3],
             num_remaining_tasks := 2,
             remaining_local_computation := 6,
             table_exchange := [LockCache 42 1, LockCache 42 1]\<rparr>) \<and>
   split_subtree ex_env 0 ex_queue =
     Inr (ex_queue
            \<lparr>query_subtables :=
               [ex_query\<lparr>start_node := ex_left\<rparr>, ex_query\<lparr>start_node := ex_right\<rparr>],
             tasks := [[], []],
             assigned_work := [Some [], Some []],
             remaining_work_for_query_subtables := [3, 3]\<rparr>) \<and>
   runs ex_env ex_calls_new Constructor = Inr ex_queue_new \<and>
   node_children (start_node (query_subtables ex_queue_new ! 0)) = Some (ex_left, ex_right) \<and>
   assigned_work ex_queue_new ! 0 = None \<and>
   split_subtree ex_env 0 ex_queue_new = Inl NullPointer \<and>
   DequeueTask ex_env (None, - 1) False ex_queue_new = Inl NullPointer"
proof -
  have pv1: "parallel_vectors ex_queue_task"
    by (simp add: parallel_vectors_def ex_queue_task_def ex_queue_def Constructor_def)
  have s1: "0 < length (query_subtables ex_queue_task)"
    by (simp add: ex_queue_task_def ex_queue_def)
  have c1: "node_children (start_node (query_subtables ex_queue_task ! 0))
              = Some (ex_left, ex_right)"
    by (simp add: ex_queue_task_def ex_queue_def ex_query_def ex_root_def)
  have a1: "assigned_work ex_queue_task ! 0 = Some [(0, 0, 3)]"
    by (simp add: ex_queue_task_def)
  have pv0: "parallel_vectors ex_queue"
    by (simp add: parallel_vectors_def ex_queue_def Constructor_def)
  have s0: "0 < length (query_subtables ex_queue)"
    by (simp add: ex_queue_def)
  have c0: "node_children (start_node (query_subtables ex_queue ! 0))
              = Some (ex_left, ex_right)"
    by (simp add: ex_queue_def ex_query_def ex_root_def)
  have a0: "assigned_work ex_queue ! 0 = Some []"
    by (simp add: ex_queue_def)
  have pvn: "parallel_vectors ex_queue_new"
    by (simp add: parallel_vectors_def ex_queue_new_def Constructor_def)
  have sn: "0 < length (query_subtables ex_queue_new)"
    by (simp add: ex_queue_new_def)
  have cn: "node_children (start_node (query_subtables ex_queue_new ! 0))
              = Some (ex_left, ex_right)"
    by (simp add: ex_queue_new_def ex_imported_def ex_query_def ex_root_def)
  have an: "assigned_work ex_queue_new ! 0 = None"
    by (simp add: ex_queue_new_def)
  have w: "work ex_task = 6"
    "work (new_task ex_env (ex_query\<lparr>start_node := ex_left\<rparr>) ex_reference) = 3"
    "work (new_task ex_env (ex_query\<lparr>start_node := ex_right\<rparr>) ex_reference) = 3"
    by (simp_all add: work_def ex_defs)
  have r: "task_reference_subtable ex_task = ex_reference"
    "reference_subtable_cache_block_id ex_task = 42"
    by (simp_all add: ex_task_def new_task_def reference_subtable_cache_block_id_def
          ex_reference_def)
  have m: "metric_mid ex_env (node_bound ex_left) (node_bound (start_node ex_reference)) = 6"
    "metric_mid ex_env (node_bound ex_right) (node_bound (start_node ex_reference)) = 7"
    by (simp_all add: ex_env_def ex_left_def ex_right_def ex_reference_def)
  have "split_subtree ex_env 0 ex_queue_task =
     Inr (ex_queue_task
            \<lparr>query_subtables :=
               [ex_query\<lparr>start_node := ex_left\<rparr>, ex_query\<lparr>start_node := ex_right\<rparr>],
             tasks :=
               [[\<lparr>task_query_subtable = ex_query\<lparr>start_node := ex_left\<rparr>,
                  task_reference_subtable = ex_reference, task_priority = - 6\<rparr>],
                [\<lparr>task_query_subtable = ex_query\<lparr>start_node := ex_right\<rparr>,
                  task_reference_subtable = ex_reference, task_priority = - 7\<rparr>]],
             assigned_work := [Some [(0, 0, 3)], Some [(0, 0, 3)]],
             remaining_work_for_query_subtables := [3, 3],
             num_remaining_tasks := 2,
             remaining_local_computation := 6,
             table_exchange := [LockCache 42 1, LockCache 42 1]\<rparr>)"
    using split_subtree_effect [OF pv1 s1 c1, of ex_env] a1
    by (simp add: w r m ex_queue_task_def ex_queue_def Constructor_def)
  moreover have "split_subtree ex_env 0 ex_queue =
     Inr (ex_queue
            \<lparr>query_subtables :=
               [ex_query\<lparr>start_node := ex_left\<rparr>, ex_query\<lparr>start_node := ex_right\<rparr>],
             tasks := [[], []],
             assigned_work := [Some [], Some []],
             remaining_work_for_query_subtables := [3, 3]\<rparr>)"
    using split_subtree_effect [OF pv0 s0 c0, of ex_env] a0
    by (simp add: ex_queue_def Constructor_def)
  moreover have rn: "runs ex_env ex_calls_new Constructor = Inr ex_queue_new"
    by (simp add: ex_calls_new_def ex_queue_new_def Init_def Constructor_def PushNewQueue_def
          GrowSlots_def Alias_def PushTask_def Let_def work_def ex_defs ex_imported_def)
  moreover have sp: "split_subtree ex_env 0 ex_queue_new = Inl NullPointer"
    using split_subtree_effect [OF pvn sn cn, of ex_env] an by blast
  moreover have "DequeueTask ex_env (None, - 1) False ex_queue_new = Inl NullPointer"
  proof -
    have "Redistribute_scan [0 ..< length (query_subtables ex_queue_new)] ex_queue_new (0, - 1)
            = Inr (2, 0)"
      by (simp add: ex_queue_new_def ex_imported_def ex_query_def ex_root_def is_leaf_def)
    then have "RedistributeAmongCores ex_env ex_queue_new = Inl NullPointer"
      by (simp add: RedistributeAmongCores_def sp)
    moreover have "sint (of_nat (length (tasks ex_queue_new)) :: i32)
                     < sint (num_threads ex_queue_new)"
      by (simp add: ex_queue_new_def)
    ultimately show ?thesis
      by (simp add: DequeueTask_def)
  qed
  ultimately show ?thesis using cn an by simp
qed

subsection \<open>The parallel vectors stay parallel\<close>

lemma length_swap_with_last: "length (swap_with_last i v) = length v - 1"
  by (simp add: swap_with_last_def)

lemma pv_GrowSlots: "parallel_vectors q \<Longrightarrow> parallel_vectors (GrowSlots fresh q)"
  by (simp add: parallel_vectors_def GrowSlots_def)

lemma pv_PushNewQueue:
  "parallel_vectors q \<Longrightarrow> parallel_vectors (snd (PushNewQueue fresh r t q))"
  by (simp add: parallel_vectors_def PushNewQueue_def GrowSlots_def Let_def)

lemma pv_PushTask:
  "parallel_vectors q \<Longrightarrow> PushTask env i ref q = Inr q' \<Longrightarrow> parallel_vectors q'"
  by (auto simp add: parallel_vectors_def PushTask_def Let_def split: if_splits)

lemma pv_Evict:
  "parallel_vectors q \<Longrightarrow> Evict i q = Inr q' \<Longrightarrow> parallel_vectors q'"
  by (auto simp add: parallel_vectors_def Evict_def length_swap_with_last split: if_splits)

lemma pv_Flush:
  "parallel_vectors q \<Longrightarrow> Flush i q = Inr q' \<Longrightarrow> parallel_vectors q'"
  by (auto simp add: parallel_vectors_def Flush_def Evict_def length_swap_with_last
      split: if_splits)

lemma pv_CheckOut:
  "parallel_vectors q \<Longrightarrow> CheckOut i r q = Inr q' \<Longrightarrow> parallel_vectors q'"
  by (auto simp add: parallel_vectors_def CheckOut_def Evict_def length_swap_with_last
      split: if_splits)

lemma pv_LockQuerySubTable:
  "parallel_vectors q \<Longrightarrow> LockQuerySubTable i r q = Inr (h, q') \<Longrightarrow> parallel_vectors q'"
  by (auto simp add: LockQuerySubTable_def dest: pv_CheckOut split: sum.splits)

lemma pv_ReturnQuerySubTable:
  "parallel_vectors q \<Longrightarrow> ReturnQuerySubTable k q = Inr q' \<Longrightarrow> parallel_vectors q'"
  by (auto simp add: parallel_vectors_def ReturnQuerySubTable_def Return_def Let_def
      split: if_splits)

lemma pv_Synchronize_loop:
  "parallel_vectors q \<Longrightarrow> parallel_vectors (Synchronize_loop received before rest q)"
  by (induction rest arbitrary: before) (simp_all add: parallel_vectors_def Let_def)

lemma pv_Synchronize: "parallel_vectors q \<Longrightarrow> parallel_vectors (Synchronize received q)"
  by (simp add: Synchronize_def pv_Synchronize_loop)

lemma pv_pop: "parallel_vectors q \<Longrightarrow> pop i q = Inr q' \<Longrightarrow> parallel_vectors q'"
  by (auto simp add: parallel_vectors_def pop_def split: if_splits sum.splits)

lemma pv_DequeueTask_slot:
  assumes "parallel_vectors q"
    and "DequeueTask_slot env i task_out c q = Inr (cleaned, task_out', handle, q')"
  shows "parallel_vectors q'"
proof (cases "tasks q ! i")
  case Nil
  with assms show ?thesis
    by (auto simp add: DequeueTask_slot_def dest: pv_Evict pv_Flush
        split: if_splits sum.splits)
next
  case (Cons t h)
  let ?q1 = "q\<lparr>tasks := (tasks q)[i := h],
               num_remaining_tasks := num_remaining_tasks q - 1,
               remaining_local_computation := remaining_local_computation q - work t\<rparr>"
  from assms(1) have pv1: "parallel_vectors ?q1"
    by (simp add: parallel_vectors_def)
  from Cons assms(2) show ?thesis
    using pv1
    by (auto simp add: DequeueTask_slot_def heap_top_def heap_pop_def Let_def
        dest: pv_LockQuerySubTable split: if_splits sum.splits)
qed

lemma pv_GenerateTasks_active:
  "parallel_vectors q \<Longrightarrow> GenerateTasks_active env ref grid cache_id js q = Inr q' \<Longrightarrow>
   parallel_vectors q'"
proof (induction js arbitrary: q)
  case Nil
  then show ?case by simp
next
  case (Cons j js)
  show ?case
  proof (cases "j < length (query_subtables q) \<and>
                table_rank (query_subtables q ! j) = world_rank env")
    case False
    with Cons show ?thesis by (auto split: if_splits)
  next
    case True
    with Cons.prems obtain ivs where ivs: "j < length (assigned_work q)"
      "assigned_work q ! j = Some ivs"
      by (auto split: if_splits option.splits)
    show ?thesis
    proof (cases "fst (Insert grid ivs)")
      case False
      with True ivs Cons show ?thesis by simp
    next
      case ins: True
      let ?qa = "q\<lparr>assigned_work := (assigned_work q)[j := Some (snd (Insert grid ivs))]\<rparr>"
      from True ivs ins Cons.prems(2) obtain q1 where
        q1: "PushTask env j ref ?qa = Inr q1"
        and rest: "GenerateTasks_active env ref grid cache_id js
                     (q1\<lparr>table_exchange := table_exchange q1 @ [LockCache cache_id 1]\<rparr>) = Inr q'"
        by (auto split: sum.splits)
      from Cons.prems(1) have "parallel_vectors ?qa"
        by (simp add: parallel_vectors_def)
      from pv_PushTask [OF this q1] have "parallel_vectors q1" .
      then have "parallel_vectors (q1\<lparr>table_exchange := table_exchange q1 @ [LockCache cache_id 1]\<rparr>)"
        by (simp add: parallel_vectors_def)
      from Cons.IH [OF this rest] show ?thesis .
    qed
  qed
qed

lemma pv_GenerateTasks_checked_out:
  "parallel_vectors q \<Longrightarrow> GenerateTasks_checked_out env ref grid cache_id ks q = Inr q' \<Longrightarrow>
   parallel_vectors q'"
proof (induction ks arbitrary: q)
  case Nil
  then show ?case by simp
next
  case (Cons k ks)
  from Cons.prems(2) have k: "k < length (checked_out_query_subtables q)"
    by (auto split: if_splits)
  with Cons.prems(2) obtain ins e' where
    li: "lock_Insert grid (checked_out_query_subtables q ! k) = Inr (ins, e')"
    by (auto split: sum.splits)
  show ?case
  proof (cases ins)
    case False
    with k li Cons show ?thesis by simp
  next
    case True
    let ?q1 = "lock_PushTask env ref k
                 (q\<lparr>checked_out_query_subtables := (checked_out_query_subtables q)[k := e']\<rparr>)"
    let ?q2 = "?q1\<lparr>table_exchange := table_exchange ?q1 @ [LockCache cache_id 1]\<rparr>"
    from Cons.prems(1) have "parallel_vectors ?q2"
      by (simp add: parallel_vectors_def lock_PushTask_def Let_def)
    moreover from True k li Cons.prems(2) have
      "GenerateTasks_checked_out env ref grid cache_id ks ?q2 = Inr q'"
      by (simp add: Let_def)
    ultimately show ?thesis by (rule Cons.IH)
  qed
qed

lemma pv_GenerateTasks_one:
  "parallel_vectors q \<Longrightarrow> GenerateTasks_one env received q = Inr q' \<Longrightarrow> parallel_vectors q'"
  by (auto simp add: GenerateTasks_one_def Let_def
      dest: pv_GenerateTasks_active pv_GenerateTasks_checked_out split: sum.splits)

lemma pv_GenerateTasks:
  "parallel_vectors q \<Longrightarrow> GenerateTasks env ids q = Inr q' \<Longrightarrow> parallel_vectors q'"
  by (induction ids arbitrary: q) (auto dest: pv_GenerateTasks_one split: sum.splits)


lemma split_subtree_Inr:
  assumes "parallel_vectors q" and "split_subtree env s q = Inr q'"
  shows "\<exists>left right ivs. s < length (query_subtables q) \<and>
           node_children (start_node (query_subtables q ! s)) = Some (left, right) \<and>
           assigned_work q ! s = Some ivs"
proof -
  from assms(2) have s: "s < length (query_subtables q)"
    by (auto simp add: split_subtree_def split: if_splits)
  from assms(2) s obtain left right where
    c: "node_children (start_node (query_subtables q ! s)) = Some (left, right)"
    by (auto simp add: split_subtree_def split: option.splits)
  let ?L = "(query_subtables q ! s)\<lparr>start_node := left\<rparr>"
  let ?R = "(query_subtables q ! s)\<lparr>start_node := right\<rparr>"
  let ?q2 = "q\<lparr>query_subtables := (query_subtables q)[s := ?L] @ [?R]\<rparr>"
  from assms(1) s have len: "s < length (tasks q)"
    by (simp add: parallel_vectors_def)
  have drain: "split_drain env s [] ?q2 =
     Inr ([] @ tasks q ! s,
          ?q2\<lparr>tasks := (tasks ?q2)[s := []],
            num_remaining_tasks := num_remaining_tasks ?q2 - of_nat (length (tasks q ! s)),
            remaining_local_computation :=
              remaining_local_computation ?q2 - sum_list (map work (tasks q ! s))\<rparr>)"
    using len by (intro split_drain_all) simp_all
  from assms(2) s c drain have "assigned_work q ! s \<noteq> None"
    by (auto simp add: split_subtree_def Let_def Alias_def split: if_splits option.splits)
  with s c show ?thesis by auto
qed

lemma pv_split_subtree:
  assumes "parallel_vectors q" and "split_subtree env s q = Inr q'"
  shows "parallel_vectors q'"
proof -
  from split_subtree_Inr [OF assms] obtain left right ivs where
    h: "s < length (query_subtables q)"
    "node_children (start_node (query_subtables q ! s)) = Some (left, right)"
    "assigned_work q ! s = Some ivs" by blast
  from split_subtree_result [OF assms(1) h, of env] assms
  show ?thesis by (auto simp add: parallel_vectors_def)
qed

lemma pv_RedistributeAmongCores:
  "parallel_vectors q \<Longrightarrow> RedistributeAmongCores env q = Inr q' \<Longrightarrow> parallel_vectors q'"
  by (auto simp add: RedistributeAmongCores_def dest: pv_split_subtree
      split: sum.splits if_splits)

lemma pv_DequeueTask_loop:
  "parallel_vectors q \<Longrightarrow>
   DequeueTask_loop env probe_index task_out handle c q = Inr (task_out', handle', q') \<Longrightarrow>
   parallel_vectors q'"
proof (induction env probe_index task_out handle c q rule: DequeueTask_loop.induct)
  case (1 env probe_index task_out handle c q)
  show ?case
  proof (cases "sint (snd task_out) < 0 \<and> probe_index < length (tasks q)")
    case False
    with "1.prems" show ?thesis
      by (subst (asm) DequeueTask_loop.simps) auto
  next
    case True
    with "1.prems"(2) obtain cleaned out1 h1 q1 where
      d: "DequeueTask_slot env probe_index task_out c q = Inr (cleaned, out1, h1, q1)"
      by (subst (asm) DequeueTask_loop.simps) (auto split: sum.splits)
    from pv_DequeueTask_slot [OF "1.prems"(1) d] have pv1: "parallel_vectors q1" .
    show ?thesis
    proof (cases cleaned)
      case c: True
      from "1.prems"(2) True d c have
        "DequeueTask_loop env probe_index out1
           (case h1 of None \<Rightarrow> handle | Some h \<Rightarrow> Some h) c q1 = Inr (task_out', handle', q')"
        by (subst (asm) DequeueTask_loop.simps) simp
      from "1.IH"(1) [OF True d refl refl refl c pv1 this] show ?thesis .
    next
      case c: False
      from "1.prems"(2) True d c have
        "DequeueTask_loop env (probe_index + 1) out1
           (case h1 of None \<Rightarrow> handle | Some h \<Rightarrow> Some h) c q1 = Inr (task_out', handle', q')"
        by (subst (asm) DequeueTask_loop.simps) simp
      from "1.IH"(2) [OF True d refl refl refl c pv1 this] show ?thesis .
    qed
  qed
qed

lemma pv_DequeueTask:
  "parallel_vectors q \<Longrightarrow> DequeueTask env task_out c q = Inr (task_out', handle', q') \<Longrightarrow>
   parallel_vectors q'"
  by (auto simp add: DequeueTask_def dest: pv_RedistributeAmongCores pv_DequeueTask_loop
      split: if_splits sum.splits)

lemma pv_push_completed_computation:
  "parallel_vectors q \<Longrightarrow> push_completed_computation rc qty q = Inr q' \<Longrightarrow>
   parallel_vectors q'"
  by (auto simp add: parallel_vectors_def push_completed_computation_def Let_def
        fold_decrement split: if_splits)

lemma pv_push_completed_computation_lock:
  "parallel_vectors q \<Longrightarrow> push_completed_computation_lock rc qty k q = Inr q' \<Longrightarrow>
   parallel_vectors q'"
  by (auto simp add: parallel_vectors_def push_completed_computation_lock_def Let_def
      split: if_splits)

lemma pv_decrement:
  "parallel_vectors (decrement_remaining_local_computation d q) = parallel_vectors q"
  "parallel_vectors (decrement_remaining_global_computation d q) = parallel_vectors q"
  by (simp_all add: parallel_vectors_def decrement_remaining_local_computation_def
        decrement_remaining_global_computation_def)

lemma pv_Constructor: "parallel_vectors Constructor"
  by (simp add: parallel_vectors_def Constructor_def)

lemma pv_Init: "parallel_vectors (Init frontier lqr tq tr nt q0)"
  by (simp add: parallel_vectors_def Init_def)

lemma pv_run:
  assumes "parallel_vectors q" and "run env c q = Inr q'"
  shows "parallel_vectors q'"
proof (cases c)
  case (CallInit frontier lqr tq tr nt)
  with assms(2) show ?thesis by (auto simp add: pv_Init)
next
  case (CallPushNewQueue fresh r t)
  with assms show ?thesis by (auto dest: pv_PushNewQueue)
next
  case (CallPushTask i ref)
  with assms show ?thesis by (auto dest: pv_PushTask)
next
  case (CallGenerateTasks ids)
  with assms show ?thesis by (auto dest: pv_GenerateTasks)
next
  case (CallDequeueTask task_out c)
  with assms show ?thesis by (auto dest: pv_DequeueTask split: sum.splits)
next
  case (CallDequeueTask_slot i task_out c)
  with assms show ?thesis by (auto dest: pv_DequeueTask_slot split: sum.splits)
next
  case (CallPop i)
  with assms show ?thesis by (auto dest: pv_pop)
next
  case (CallLockQuerySubTable i r)
  with assms show ?thesis by (auto dest: pv_LockQuerySubTable split: sum.splits)
next
  case (CallReturnQuerySubTable k)
  with assms show ?thesis by (auto dest: pv_ReturnQuerySubTable)
next
  case (CallSynchronize t)
  with assms show ?thesis by (auto dest: pv_Synchronize)
next
  case (CallPushCompletedComputation rc qty)
  with assms show ?thesis by (auto dest: pv_push_completed_computation)
next
  case (CallPushCompletedComputationLock rc qty k)
  with assms show ?thesis by (auto dest: pv_push_completed_computation_lock)
next
  case (CallDecrementRemainingLocalComputation d)
  with assms show ?thesis by (auto simp add: pv_decrement)
next
  case (CallDecrementRemainingGlobalComputation d)
  with assms show ?thesis by (auto simp add: pv_decrement)
qed

lemma pv_runs:
  "parallel_vectors q \<Longrightarrow> runs env cs q = Inr q' \<Longrightarrow> parallel_vectors q'"
  by (induction cs arbitrary: q) (auto dest: pv_run split: sum.splits)

lemma butlast_zip_eq:
  "length xs = length ys \<Longrightarrow> butlast (zip xs ys) = zip (butlast xs) (butlast ys)"
  by (cases xs rule: rev_cases; cases ys rule: rev_cases) simp_all

lemma swap_with_last_zip:
  assumes "length xs = length ys" and "i < length xs"
  shows "swap_with_last i (zip xs ys) = zip (swap_with_last i xs) (swap_with_last i ys)"
proof -
  from assms have ne: "xs \<noteq> []" "ys \<noteq> []" by auto
  show ?thesis
    using assms ne
    by (simp add: swap_with_last_def last_zip zip_update [symmetric] butlast_zip_eq)
qed

lemma slots_Evict:
  assumes "parallel_vectors q" and "Evict i q = Inr q'"
  shows "slots q' = swap_with_last i (slots q)"
proof -
  from assms(2) have i: "i < length (query_subtables q)"
    by (auto simp add: Evict_def split: if_splits)
  with assms show ?thesis
    by (auto simp add: Evict_def slots_def parallel_vectors_def swap_with_last_zip
          length_swap_with_last split: if_splits)
qed

lemma slots_GrowSlots:
  "parallel_vectors q \<Longrightarrow> slots (GrowSlots fresh q) = slots q @ [(fresh, [], None, 0)]"
  by (simp add: slots_def GrowSlots_def parallel_vectors_def)

lemma slots_PushNewQueue:
  assumes "parallel_vectors q"
  shows "slots (snd (PushNewQueue fresh r t q))
           = slots q @ [(t\<lparr>originating_rank := r\<rparr>, [], None, 0)]"
proof -
  from assms have len: "length (tasks q) = length (query_subtables q)"
    "length (assigned_work q) = length (query_subtables q)"
    "length (remaining_work_for_query_subtables q) = length (query_subtables q)"
    by (simp_all add: parallel_vectors_def)
  have "(remaining_work_for_query_subtables q @ [0])[length (query_subtables q) := 0]
          = remaining_work_for_query_subtables q @ [0]"
    using len(3) by (simp add: list_update_append)
  then show ?thesis
    using len
    by (simp add: slots_def PushNewQueue_def GrowSlots_def Let_def Alias_def)
qed

lemma zip4_update_append:
  assumes "length bs = length as" and "length cs = length as" and "length ds = length as"
  shows "zip (as[s := a] @ [a']) (zip (bs[s := b] @ [b']) (zip (cs @ [c']) (ds @ [d'])))
           = (zip as (zip bs (zip cs ds)))[s := (a, b, cs ! s, ds ! s)] @ [(a', b', c', d')]"
  using assms by (simp add: zip_update [symmetric])

lemma slots_split_subtree:
  assumes "parallel_vectors q" and "split_subtree env s q = Inr q'"
  shows "\<exists>left right hl hr.
           node_children (start_node (query_subtables q ! s)) = Some (left, right) \<and>
           slots q' =
             (slots q)[s := ((query_subtables q ! s)\<lparr>start_node := left\<rparr>, hl,
                             assigned_work q ! s, remaining_work_for_query_subtables q ! s)]
             @ [((query_subtables q ! s)\<lparr>start_node := right\<rparr>, hr,
                 assigned_work q ! s, remaining_work_for_query_subtables q ! s)]"
proof -
  from split_subtree_Inr [OF assms] obtain left right ivs where
    h: "s < length (query_subtables q)"
    "node_children (start_node (query_subtables q ! s)) = Some (left, right)"
    "assigned_work q ! s = Some ivs" by blast
  from assms(1) have len: "length (tasks q) = length (query_subtables q)"
    "length (assigned_work q) = length (query_subtables q)"
    "length (remaining_work_for_query_subtables q) = length (query_subtables q)"
    by (simp_all add: parallel_vectors_def)
  let ?L = "(query_subtables q ! s)\<lparr>start_node := left\<rparr>"
  let ?R = "(query_subtables q ! s)\<lparr>start_node := right\<rparr>"
  let ?A = "fold (\<lambda>t. heap_push (new_task env ?L (task_reference_subtable t))) (tasks q ! s) []"
  let ?B = "fold (\<lambda>t. heap_push (new_task env ?R (task_reference_subtable t))) (tasks q ! s) []"
  from split_subtree_result [OF assms(1) h, of env] assms(2)
  have "slots q' =
          zip ((query_subtables q)[s := ?L] @ [?R])
            (zip ((tasks q)[s := ?A] @ [?B])
               (zip (assigned_work q @ [Some ivs])
                  (remaining_work_for_query_subtables q
                     @ [remaining_work_for_query_subtables q ! s])))"
    by (auto simp add: slots_def)
  also have "\<dots> = (slots q)[s := (?L, ?A, assigned_work q ! s,
                                   remaining_work_for_query_subtables q ! s)]
                     @ [(?R, ?B, Some ivs, remaining_work_for_query_subtables q ! s)]"
    unfolding slots_def using len by (intro zip4_update_append) simp_all
  finally show ?thesis using h(2,3) by auto
qed

lemma Synchronize_loop_slots:
  "parallel_vectors q \<Longrightarrow>
   slots (Synchronize_loop received before rest q) = slots q \<or>
   (\<exists>e\<in>set rest. slots (Synchronize_loop received before rest q) =
      slots q @ [(Copy (lock_query_subtable e) received, lock_task e, lock_assigned_work e,
                  lock_remaining_work_for_query_subtable e)])"
  by (induction rest arbitrary: before)
     (auto simp add: Let_def slots_def parallel_vectors_def)


text \<open>
  C5. The four parallel vectors have one length in the constructed queue and after
  \<^verbatim>\<open>Init\<close> on any queue, and every operation keeps it so: \<^verbatim>\<open>GrowSlots_\<close>,
  \<^verbatim>\<open>Evict_\<close>, \<^verbatim>\<open>split_subtree_\<close>, \<^verbatim>\<open>Synchronize\<close> and \<^verbatim>\<open>PushNewQueue\<close>, every
  call from outside (\<^verbatim>\<open>Init\<close> among them), and so every sequence of calls.
  Position \<open>i\<close> of the four vectors moves as one record: growing appends one record,
  evicting is swap-with-last on the records, splitting rewrites record \<open>s\<close> and appends
  one, \<^verbatim>\<open>Synchronize\<close> appends the returned entry's four members or leaves the slots
  as they are.
\<close>

theorem parallel_vectors_invariant:
  assumes "parallel_vectors q"
  shows
    "parallel_vectors (GrowSlots fresh q) \<and>
     slots (GrowSlots fresh q) = slots q @ [(fresh, [], None, 0)] \<and>
     (\<forall>q'. Evict i q = Inr q' \<longrightarrow>
        parallel_vectors q' \<and> slots q' = swap_with_last i (slots q)) \<and>
     (\<forall>q'. split_subtree env s q = Inr q' \<longrightarrow>
        parallel_vectors q' \<and>
        (\<exists>left right hl hr.
           node_children (start_node (query_subtables q ! s)) = Some (left, right) \<and>
           slots q' =
             (slots q)[s := ((query_subtables q ! s)\<lparr>start_node := left\<rparr>, hl,
                             assigned_work q ! s, remaining_work_for_query_subtables q ! s)]
             @ [((query_subtables q ! s)\<lparr>start_node := right\<rparr>, hr,
                 assigned_work q ! s, remaining_work_for_query_subtables q ! s)])) \<and>
     parallel_vectors (Synchronize received q) \<and>
     (slots (Synchronize received q) = slots q \<or>
      (\<exists>e\<in>set (checked_out_query_subtables q).
         slots (Synchronize received q) =
           slots q @ [(Copy (lock_query_subtable e) received, lock_task e,
                       lock_assigned_work e, lock_remaining_work_for_query_subtable e)])) \<and>
     parallel_vectors (snd (PushNewQueue fresh r t q)) \<and>
     slots (snd (PushNewQueue fresh r t q))
       = slots q @ [(t\<lparr>originating_rank := r\<rparr>, [], None, 0)] \<and>
     (\<forall>q'. run env c q = Inr q' \<longrightarrow> parallel_vectors q') \<and>
     (\<forall>q'. runs env cs q = Inr q' \<longrightarrow> parallel_vectors q') \<and>
     (\<forall>q'. runs env cs Constructor = Inr q' \<longrightarrow> parallel_vectors q') \<and>
     (\<forall>q'. runs env cs (Init frontier lqr tq tr nt q0) = Inr q' \<longrightarrow> parallel_vectors q')"
proof (intro conjI allI impI)
  show "parallel_vectors (GrowSlots fresh q)"
    by (rule pv_GrowSlots [OF assms])
  show "slots (GrowSlots fresh q) = slots q @ [(fresh, [], None, 0)]"
    by (rule slots_GrowSlots [OF assms])
  show "\<And>q'. Evict i q = Inr q' \<Longrightarrow> parallel_vectors q'"
    by (rule pv_Evict [OF assms])
  show "\<And>q'. Evict i q = Inr q' \<Longrightarrow> slots q' = swap_with_last i (slots q)"
    by (rule slots_Evict [OF assms])
  show "\<And>q'. split_subtree env s q = Inr q' \<Longrightarrow> parallel_vectors q'"
    by (rule pv_split_subtree [OF assms])
  show "\<And>q'. split_subtree env s q = Inr q' \<Longrightarrow>
        \<exists>left right hl hr.
           node_children (start_node (query_subtables q ! s)) = Some (left, right) \<and>
           slots q' =
             (slots q)[s := ((query_subtables q ! s)\<lparr>start_node := left\<rparr>, hl,
                             assigned_work q ! s, remaining_work_for_query_subtables q ! s)]
             @ [((query_subtables q ! s)\<lparr>start_node := right\<rparr>, hr,
                 assigned_work q ! s, remaining_work_for_query_subtables q ! s)]"
    by (rule slots_split_subtree [OF assms])
  show "parallel_vectors (Synchronize received q)"
    by (rule pv_Synchronize [OF assms])
  show "slots (Synchronize received q) = slots q \<or>
      (\<exists>e\<in>set (checked_out_query_subtables q).
         slots (Synchronize received q) =
           slots q @ [(Copy (lock_query_subtable e) received, lock_task e,
                       lock_assigned_work e, lock_remaining_work_for_query_subtable e)])"
    unfolding Synchronize_def by (rule Synchronize_loop_slots [OF assms])
  show "parallel_vectors (snd (PushNewQueue fresh r t q))"
    by (rule pv_PushNewQueue [OF assms])
  show "slots (snd (PushNewQueue fresh r t q))
       = slots q @ [(t\<lparr>originating_rank := r\<rparr>, [], None, 0)]"
    by (rule slots_PushNewQueue [OF assms])
  show "\<And>q'. run env c q = Inr q' \<Longrightarrow> parallel_vectors q'"
    by (rule pv_run [OF assms])
  show "\<And>q'. runs env cs q = Inr q' \<Longrightarrow> parallel_vectors q'"
    by (rule pv_runs [OF assms])
  show "\<And>q'. runs env cs Constructor = Inr q' \<Longrightarrow> parallel_vectors q'"
    by (rule pv_runs [OF pv_Constructor])
  show "\<And>q'. runs env cs (Init frontier lqr tq tr nt q0) = Inr q' \<Longrightarrow> parallel_vectors q'"
    by (rule pv_runs [OF pv_Init])
qed

text \<open>
  Evicting the first of two slots leaves the second in its place; a queue initialised
  with one slot receives a reference block, hands out the task, is told the work is
  done and evicts the slot.
\<close>

theorem parallel_vectors_invariant_witness:
  "parallel_vectors ex_queue_two \<and>
   Evict 0 ex_queue_two =
     Inr (ex_queue_two\<lparr>assigned_work := [Some []],
            query_subtables := [ex_query\<lparr>start_node := TreeNode 2 1 3 None\<rparr>],
            remaining_work_for_query_subtables := [3], tasks := [[]]\<rparr>) \<and>
   parallel_vectors
     (ex_queue_two\<lparr>assigned_work := [Some []],
        query_subtables := [ex_query\<lparr>start_node := TreeNode 2 1 3 None\<rparr>],
        remaining_work_for_query_subtables := [3], tasks := [[]]\<rparr>) \<and>
   runs ex_env
     [CallGenerateTasks [(0, 0, 3, 42)], CallDequeueTask (None, - 1) False,
      CallPushCompletedComputation 3 6, CallDequeueTask (None, - 1) False]
     (Init [ex_query] 0 2 3 1 Constructor)
     = Inr (Constructor
              \<lparr>table_exchange := [LockCache 42 1, ExchangePushCompletedComputation 6]\<rparr>) \<and>
   parallel_vectors
     (Constructor\<lparr>table_exchange := [LockCache 42 1, ExchangePushCompletedComputation 6]\<rparr>)"
proof -
  have pv: "parallel_vectors ex_queue_two"
    by (simp add: parallel_vectors_def ex_queue_two_def)
  have ev: "Evict 0 ex_queue_two =
     Inr (ex_queue_two\<lparr>assigned_work := [Some []],
            query_subtables := [ex_query\<lparr>start_node := TreeNode 2 1 3 None\<rparr>],
            remaining_work_for_query_subtables := [3], tasks := [[]]\<rparr>)"
    by (simp add: Evict_def ex_queue_two_def swap_with_last_def)
  have tr: "runs ex_env
     [CallGenerateTasks [(0, 0, 3, 42)], CallDequeueTask (None, - 1) False,
      CallPushCompletedComputation 3 6, CallDequeueTask (None, - 1) False]
     (Init [ex_query] 0 2 3 1 Constructor)
     = Inr (Constructor
              \<lparr>table_exchange := [LockCache 42 1, ExchangePushCompletedComputation 6]\<rparr>)"
    by code_simp
  note t = parallel_vectors_invariant [OF pv, where i = 0 and env = ex_env
      and cs = "[CallGenerateTasks [(0, 0, 3, 42)], CallDequeueTask (None, - 1) False,
        CallPushCompletedComputation 3 6, CallDequeueTask (None, - 1) False]"
      and frontier = "[ex_query]" and lqr = 0 and tq = 2 and tr = 3 and nt = 1]
  from t ev have "parallel_vectors
     (ex_queue_two\<lparr>assigned_work := [Some []],
        query_subtables := [ex_query\<lparr>start_node := TreeNode 2 1 3 None\<rparr>],
        remaining_work_for_query_subtables := [3], tasks := [[]]\<rparr>)"
    by blast
  moreover from t tr have "parallel_vectors
     (Constructor\<lparr>table_exchange := [LockCache 42 1, ExchangePushCompletedComputation 6]\<rparr>)"
    by blast
  ultimately show ?thesis using pv ev tr by simp
qed

subsection \<open>The task accounting\<close>

lemma sum_list_map_update:
  fixes f :: "'a \<Rightarrow> 'b::comm_monoid_add"
  shows "i < length xs \<Longrightarrow>
         sum_list (map f (xs[i := y])) + f (xs ! i) = sum_list (map f xs) + f y"
proof (induction xs arbitrary: i)
  case Nil
  then show ?case by simp
next
  case (Cons x xs)
  show ?case
  proof (cases i)
    case 0
    then show ?thesis by (simp add: ac_simps)
  next
    case (Suc j)
    with Cons.prems have "j < length xs" by simp
    from Cons.IH [OF this] Suc show ?thesis
      by (simp add: add.assoc)
  qed
qed

lemma sum_list_map_butlast:
  fixes f :: "'a \<Rightarrow> 'b::comm_monoid_add"
  shows "xs \<noteq> [] \<Longrightarrow> sum_list (map f (butlast xs)) + f (last xs) = sum_list (map f xs)"
  by (induction xs rule: rev_induct) simp_all

lemma sum_list_map_swap_with_last:
  fixes f :: "'a \<Rightarrow> 'b::cancel_comm_monoid_add"
  assumes "i < length xs"
  shows "sum_list (map f (swap_with_last i xs)) + f (xs ! i) = sum_list (map f xs)"
proof -
  let ?ys = "xs[i := last xs]"
  from assms have ne: "xs \<noteq> []" "?ys \<noteq> []" by auto
  have l: "last ?ys = last xs"
    using assms ne by (simp add: last_list_update)
  have "sum_list (map f (butlast ?ys)) + f (last xs) + f (xs ! i)
          = sum_list (map f ?ys) + f (xs ! i)"
    using sum_list_map_butlast [OF ne(2), of f] l by simp
  also have "\<dots> = sum_list (map f xs) + f (last xs)"
    by (rule sum_list_map_update [OF assms])
  finally have "(sum_list (map f (butlast ?ys)) + f (xs ! i)) + f (last xs)
                  = sum_list (map f xs) + f (last xs)"
    by (simp add: ac_simps)
  then show ?thesis
    by (simp add: swap_with_last_def)
qed

lemma sum_list_map_erase:
  fixes f :: "'a \<Rightarrow> 'b::comm_monoid_add"
  assumes "k < length xs"
  shows "sum_list (map f (erase k xs)) + f (xs ! k) = sum_list (map f xs)"
proof -
  have "xs = take k xs @ xs ! k # drop (Suc k) xs"
    using assms by (rule id_take_nth_drop)
  then have "sum_list (map f xs) = sum_list (map f (take k xs @ xs ! k # drop (Suc k) xs))"
    by simp
  then show ?thesis
    by (simp add: erase_def ac_simps)
qed

lemma of_nat_eq_add: "(a::nat) + b = c \<Longrightarrow> (of_nat a :: i32) + of_nat b = of_nat c"
  by (metis of_nat_add)

lemma sum_list_map_zero:
  fixes f :: "'a \<Rightarrow> 'b::comm_monoid_add"
  shows "\<forall>x\<in>set xs. f x = 0 \<Longrightarrow> sum_list (map f xs) = 0"
  by (induction xs) simp_all

lemma length_heap_push: "length (heap_push t h) = Suc (length h)"
  by (induction h) simp_all

lemma work_heap_push: "sum_list (map work (heap_push t h)) = work t + sum_list (map work h)"
  by (induction h) (simp_all add: ac_simps)

lemma acct_tasks_update:
  assumes "task_accounting q" and "i < length (tasks q)"
    and "(of_nat (length h) :: i32) = of_nat (length (tasks q ! i)) + dn"
    and "sum_list (map work h) = sum_list (map work (tasks q ! i)) + dw"
  shows "task_accounting
           (q\<lparr>tasks := (tasks q)[i := h],
              num_remaining_tasks := num_remaining_tasks q + dn,
              remaining_local_computation := remaining_local_computation q + dw\<rparr>)"
proof -
  have 1: "sum_list (map length ((tasks q)[i := h])) + length (tasks q ! i)
             = sum_list (map length (tasks q)) + length h"
    by (rule sum_list_map_update [OF assms(2)])
  have 2: "sum_list (map (\<lambda>h. sum_list (map work h)) ((tasks q)[i := h]))
             + sum_list (map work (tasks q ! i))
             = sum_list (map (\<lambda>h. sum_list (map work h)) (tasks q)) + sum_list (map work h)"
    by (rule sum_list_map_update [OF assms(2)])
  from 1 have "(of_nat (sum_list (map length ((tasks q)[i := h])) + length (tasks q ! i)) :: i32)
      = of_nat (sum_list (map length (tasks q)) + length h)"
    by simp
  with assms(3) have n: "(of_nat (sum_list (map length ((tasks q)[i := h]))) :: i32)
      = of_nat (sum_list (map length (tasks q))) + dn"
    by (simp add: algebra_simps)
  from 2 assms(4) have w: "sum_list (map (\<lambda>h. sum_list (map work h)) ((tasks q)[i := h]))
      = sum_list (map (\<lambda>h. sum_list (map work h)) (tasks q)) + dw"
    by (simp add: algebra_simps)
  from assms(1) n w show ?thesis
    by (simp add: task_accounting_def algebra_simps)
qed

lemma acct_PushTask:
  assumes "task_accounting q" and "PushTask env i ref q = Inr q'"
  shows "task_accounting q'"
proof -
  from assms(2) have i: "i < length (tasks q)"
    by (auto simp add: PushTask_def split: if_splits)
  let ?t = "new_task env (query_subtables q ! i) ref"
  from assms(2) i have q': "q' = q\<lparr>tasks := (tasks q)[i := heap_push ?t (tasks q ! i)],
              num_remaining_tasks := num_remaining_tasks q + 1,
              remaining_local_computation := remaining_local_computation q + work ?t\<rparr>"
    by (auto simp add: PushTask_def Let_def split: if_splits)
  show ?thesis
    unfolding q'
    by (rule acct_tasks_update [OF assms(1) i])
       (simp_all add: length_heap_push work_heap_push ac_simps)
qed

lemma acct_pop_step:
  assumes "task_accounting q" and "i < length (tasks q)" and "tasks q ! i = t # h"
  shows "task_accounting
           (q\<lparr>tasks := (tasks q)[i := h],
              num_remaining_tasks := num_remaining_tasks q - 1,
              remaining_local_computation := remaining_local_computation q - work t\<rparr>)"
  using acct_tasks_update [OF assms(1,2), of h "- 1" "- work t"] assms(3)
  by simp

lemma acct_pop:
  assumes "task_accounting q" and "pop i q = Inr q'"
  shows "task_accounting q'"
proof -
  from assms(2) obtain t h where i: "i < length (tasks q)" "tasks q ! i = t # h"
    by (auto simp add: pop_def heap_top_def split: if_splits list.splits)
  with assms(2) have "q' = q\<lparr>tasks := (tasks q)[i := h],
              num_remaining_tasks := num_remaining_tasks q - 1,
              remaining_local_computation := remaining_local_computation q - work t\<rparr>"
    by (auto simp add: pop_def heap_top_def heap_pop_def)
  with acct_pop_step [OF assms(1) i] show ?thesis by simp
qed


lemma acct_Evict_empty:
  assumes "task_accounting q" and "Evict i q = Inr q'" and "tasks q ! i = []"
  shows "task_accounting q'"
proof -
  from assms(2) have i: "i < length (tasks q)"
    by (auto simp add: Evict_def split: if_splits)
  have 1: "sum_list (map length (swap_with_last i (tasks q))) + length (tasks q ! i)
             = sum_list (map length (tasks q))"
    by (rule sum_list_map_swap_with_last [OF i])
  have 2: "sum_list (map (\<lambda>h. sum_list (map work h)) (swap_with_last i (tasks q)))
             + sum_list (map work (tasks q ! i))
             = sum_list (map (\<lambda>h. sum_list (map work h)) (tasks q))"
    by (rule sum_list_map_swap_with_last [OF i])
  from assms 1 2 show ?thesis
    by (auto simp add: Evict_def task_accounting_def split: if_splits)
qed

lemma acct_Flush_empty:
  assumes "task_accounting q" and "Flush i q = Inr q'" and "tasks q ! i = []"
  shows "task_accounting q'"
proof -
  let ?q1 = "q\<lparr>table_exchange := table_exchange q @ [QueueFlushRequest (query_subtables q ! i)],
               num_imported_query_subtables := num_imported_query_subtables q - 1\<rparr>"
  from assms(1) have a: "task_accounting ?q1"
    by (simp add: task_accounting_def)
  from assms(2) have e: "Evict i ?q1 = Inr q'"
    by (auto simp add: Flush_def split: if_splits)
  from assms(3) have "tasks ?q1 ! i = []" by simp
  from acct_Evict_empty [OF a e this] show ?thesis .
qed

lemma acct_CheckOut:
  assumes "task_accounting q" and "CheckOut i r q = Inr q'"
  shows "task_accounting q'"
proof -
  from assms(2) have i: "i < length (tasks q)"
    by (auto simp add: CheckOut_def split: if_splits)
  have 1: "sum_list (map length (swap_with_last i (tasks q))) + length (tasks q ! i)
             = sum_list (map length (tasks q))"
    by (rule sum_list_map_swap_with_last [OF i])
  have 2: "sum_list (map (\<lambda>h. sum_list (map work h)) (swap_with_last i (tasks q)))
             + sum_list (map work (tasks q ! i))
             = sum_list (map (\<lambda>h. sum_list (map work h)) (tasks q))"
    by (rule sum_list_map_swap_with_last [OF i])
  from assms of_nat_eq_add [OF 1] 2 show ?thesis
    by (auto simp add: CheckOut_def Evict_def task_accounting_def algebra_simps
        split: if_splits)
qed

lemma acct_LockQuerySubTable:
  "task_accounting q \<Longrightarrow> LockQuerySubTable i r q = Inr (h, q') \<Longrightarrow> task_accounting q'"
  by (auto simp add: LockQuerySubTable_def dest: acct_CheckOut split: sum.splits)

lemma acct_ReturnQuerySubTable:
  assumes "task_accounting q" and "ReturnQuerySubTable k q = Inr q'"
  shows "task_accounting q'"
proof -
  from assms(2) have k: "k < length (checked_out_query_subtables q)"
    by (auto simp add: ReturnQuerySubTable_def split: if_splits)
  have 1: "sum_list (map (\<lambda>e. length (lock_task e)) (erase k (checked_out_query_subtables q)))
             + length (lock_task (checked_out_query_subtables q ! k))
             = sum_list (map (\<lambda>e. length (lock_task e)) (checked_out_query_subtables q))"
    by (rule sum_list_map_erase [OF k])
  have 2: "sum_list (map (\<lambda>e. sum_list (map work (lock_task e)))
                       (erase k (checked_out_query_subtables q)))
             + sum_list (map work (lock_task (checked_out_query_subtables q ! k)))
             = sum_list (map (\<lambda>e. sum_list (map work (lock_task e)))
                           (checked_out_query_subtables q))"
    by (rule sum_list_map_erase [OF k])
  from assms of_nat_eq_add [OF 1] 2 show ?thesis
    by (auto simp add: ReturnQuerySubTable_def Return_def Let_def task_accounting_def
          algebra_simps split: if_splits)
qed

lemma acct_Synchronize_loop:
  "task_accounting q \<Longrightarrow> checked_out_query_subtables q = passed @ rest \<Longrightarrow>
   task_accounting (Synchronize_loop received passed rest q)"
proof (induction rest arbitrary: passed)
  case Nil
  then show ?case by simp
next
  case (Cons e rest)
  show ?case
  proof (cases "subtable_includes (lock_query_subtable e) received")
    case False
    with Cons show ?thesis by simp
  next
    case True
    with Cons.prems show ?thesis
      by (simp add: Let_def task_accounting_def algebra_simps)
  qed
qed

lemma acct_Synchronize: "task_accounting q \<Longrightarrow> task_accounting (Synchronize received q)"
  by (simp add: Synchronize_def acct_Synchronize_loop)

lemma acct_PushNewQueue:
  "task_accounting q \<Longrightarrow> task_accounting (snd (PushNewQueue fresh r t q))"
  by (simp add: PushNewQueue_def GrowSlots_def Let_def task_accounting_def)

lemma acct_DequeueTask_slot:
  assumes "task_accounting q"
    and "DequeueTask_slot env i task_out c q = Inr (cleaned, task_out', handle, q')"
  shows "task_accounting q'"
proof -
  from assms(2) have i: "i < length (tasks q)"
    by (auto simp add: DequeueTask_slot_def split: if_splits)
  show ?thesis
  proof (cases "tasks q ! i")
    case Nil
    with assms show ?thesis
      by (auto simp add: DequeueTask_slot_def dest: acct_Evict_empty acct_Flush_empty
          split: if_splits sum.splits)
  next
    case (Cons t h)
    let ?q1 = "q\<lparr>tasks := (tasks q)[i := h],
                 num_remaining_tasks := num_remaining_tasks q - 1,
                 remaining_local_computation := remaining_local_computation q - work t\<rparr>"
    from acct_pop_step [OF assms(1) i Cons] have a1: "task_accounting ?q1" .
    from Cons assms(2) i show ?thesis
      using a1
      by (auto simp add: DequeueTask_slot_def heap_top_def heap_pop_def Let_def
          dest: acct_LockQuerySubTable split: if_splits sum.splits)
  qed
qed


lemma acct_GenerateTasks_active:
  "task_accounting q \<Longrightarrow> GenerateTasks_active env ref grid cache_id js q = Inr q' \<Longrightarrow>
   task_accounting q'"
proof (induction js arbitrary: q)
  case Nil
  then show ?case by simp
next
  case (Cons j js)
  show ?case
  proof (cases "j < length (query_subtables q) \<and>
                table_rank (query_subtables q ! j) = world_rank env")
    case False
    with Cons show ?thesis by (auto split: if_splits)
  next
    case True
    with Cons.prems obtain ivs where ivs: "j < length (assigned_work q)"
      "assigned_work q ! j = Some ivs"
      by (auto split: if_splits option.splits)
    show ?thesis
    proof (cases "fst (Insert grid ivs)")
      case False
      with True ivs Cons show ?thesis by simp
    next
      case ins: True
      let ?qa = "q\<lparr>assigned_work := (assigned_work q)[j := Some (snd (Insert grid ivs))]\<rparr>"
      from True ivs ins Cons.prems(2) obtain q1 where
        q1: "PushTask env j ref ?qa = Inr q1"
        and rest: "GenerateTasks_active env ref grid cache_id js
                     (q1\<lparr>table_exchange := table_exchange q1 @ [LockCache cache_id 1]\<rparr>) = Inr q'"
        by (auto split: sum.splits)
      from Cons.prems(1) have "task_accounting ?qa"
        by (simp add: task_accounting_def)
      from acct_PushTask [OF this q1] have "task_accounting q1" .
      then have "task_accounting (q1\<lparr>table_exchange := table_exchange q1 @ [LockCache cache_id 1]\<rparr>)"
        by (simp add: task_accounting_def)
      from Cons.IH [OF this rest] show ?thesis .
    qed
  qed
qed

lemma acct_lock_PushTask:
  assumes "task_accounting q" and "k < length (checked_out_query_subtables q)"
  shows "task_accounting (lock_PushTask env ref k q)"
proof -
  let ?e = "checked_out_query_subtables q ! k"
  let ?t = "new_task env (lock_query_subtable ?e) ref"
  let ?e' = "?e\<lparr>lock_task := heap_push ?t (lock_task ?e)\<rparr>"
  have 1: "sum_list (map (\<lambda>e. length (lock_task e)) ((checked_out_query_subtables q)[k := ?e']))
             + length (lock_task ?e)
             = sum_list (map (\<lambda>e. length (lock_task e)) (checked_out_query_subtables q))
               + length (lock_task ?e')"
    by (rule sum_list_map_update [OF assms(2)])
  have 2: "sum_list (map (\<lambda>e. sum_list (map work (lock_task e)))
                       ((checked_out_query_subtables q)[k := ?e']))
             + sum_list (map work (lock_task ?e))
             = sum_list (map (\<lambda>e. sum_list (map work (lock_task e)))
                           (checked_out_query_subtables q))
               + sum_list (map work (lock_task ?e'))"
    by (rule sum_list_map_update [OF assms(2)])
  from 1 have n: "sum_list (map (\<lambda>e. length (lock_task e)) ((checked_out_query_subtables q)[k := ?e']))
      = Suc (sum_list (map (\<lambda>e. length (lock_task e)) (checked_out_query_subtables q)))"
    by (simp add: length_heap_push)
  from 2 have w: "sum_list (map (\<lambda>e. sum_list (map work (lock_task e)))
                       ((checked_out_query_subtables q)[k := ?e']))
      = sum_list (map (\<lambda>e. sum_list (map work (lock_task e)))
                           (checked_out_query_subtables q)) + work ?t"
    by (simp add: work_heap_push algebra_simps)
  from assms(1) n w show ?thesis
    by (simp add: lock_PushTask_def Let_def task_accounting_def algebra_simps)
qed

lemma acct_checked_out_same_tasks:
  assumes "task_accounting q" and "k < length (checked_out_query_subtables q)"
    and "lock_task e' = lock_task (checked_out_query_subtables q ! k)"
  shows "task_accounting
           (q\<lparr>checked_out_query_subtables := (checked_out_query_subtables q)[k := e']\<rparr>)"
proof -
  have "map (\<lambda>e. length (lock_task e)) ((checked_out_query_subtables q)[k := e'])
          = map (\<lambda>e. length (lock_task e)) (checked_out_query_subtables q)"
    using assms(2,3) by (simp add: map_update list_update_same_conv)
  moreover have "map (\<lambda>e. sum_list (map work (lock_task e)))
                   ((checked_out_query_subtables q)[k := e'])
          = map (\<lambda>e. sum_list (map work (lock_task e))) (checked_out_query_subtables q)"
    using assms(2,3) by (simp add: map_update list_update_same_conv)
  ultimately show ?thesis
    using assms(1) by (simp add: task_accounting_def)
qed

lemma acct_GenerateTasks_checked_out:
  "task_accounting q \<Longrightarrow> GenerateTasks_checked_out env ref grid cache_id ks q = Inr q' \<Longrightarrow>
   task_accounting q'"
proof (induction ks arbitrary: q)
  case Nil
  then show ?case by simp
next
  case (Cons k ks)
  from Cons.prems(2) have k: "k < length (checked_out_query_subtables q)"
    by (auto split: if_splits)
  with Cons.prems(2) obtain ins e' where
    li: "lock_Insert grid (checked_out_query_subtables q ! k) = Inr (ins, e')"
    by (auto split: sum.splits)
  then have lt: "lock_task e' = lock_task (checked_out_query_subtables q ! k)"
    by (auto simp add: lock_Insert_def split: option.splits)
  show ?case
  proof (cases ins)
    case False
    with k li Cons show ?thesis by simp
  next
    case True
    let ?q0 = "q\<lparr>checked_out_query_subtables := (checked_out_query_subtables q)[k := e']\<rparr>"
    let ?q1 = "lock_PushTask env ref k ?q0"
    let ?q2 = "?q1\<lparr>table_exchange := table_exchange ?q1 @ [LockCache cache_id 1]\<rparr>"
    from acct_checked_out_same_tasks [OF Cons.prems(1) k lt] have "task_accounting ?q0" .
    from acct_lock_PushTask [OF this, of k env ref] k have "task_accounting ?q1" by simp
    then have "task_accounting ?q2"
      by (simp add: task_accounting_def)
    moreover from True k li Cons.prems(2) have
      "GenerateTasks_checked_out env ref grid cache_id ks ?q2 = Inr q'"
      by (simp add: Let_def)
    ultimately show ?thesis by (rule Cons.IH)
  qed
qed

lemma acct_GenerateTasks_one:
  "task_accounting q \<Longrightarrow> GenerateTasks_one env received q = Inr q' \<Longrightarrow> task_accounting q'"
  by (auto simp add: GenerateTasks_one_def Let_def
      dest: acct_GenerateTasks_active acct_GenerateTasks_checked_out split: sum.splits)

lemma acct_GenerateTasks:
  "task_accounting q \<Longrightarrow> GenerateTasks env ids q = Inr q' \<Longrightarrow> task_accounting q'"
  by (induction ids arbitrary: q) (auto dest: acct_GenerateTasks_one split: sum.splits)

lemma acct_split_drain:
  assumes "task_accounting q" and "split_drain env s prev q = Inr (prev', q')"
  shows "task_accounting q'"
proof -
  from assms(2) have s: "s < length (tasks q)"
    by (subst (asm) split_drain.simps) (auto split: if_splits)
  from split_drain_all [OF s refl, of env prev] assms(2)
  have q': "q' = q\<lparr>tasks := (tasks q)[s := []],
            num_remaining_tasks := num_remaining_tasks q - of_nat (length (tasks q ! s)),
            remaining_local_computation :=
              remaining_local_computation q - sum_list (map work (tasks q ! s))\<rparr>"
    by simp
  from acct_tasks_update [OF assms(1) s, of "[]" "- of_nat (length (tasks q ! s))"
      "- sum_list (map work (tasks q ! s))"]
  show ?thesis unfolding q' by simp
qed

lemma acct_split_push:
  "task_accounting q \<Longrightarrow> split_push env s prev q = Inr q' \<Longrightarrow> task_accounting q'"
proof (induction prev arbitrary: q)
  case Nil
  then show ?case by simp
next
  case (Cons t ts)
  from Cons.prems(2) obtain q1 q2 where
    p1: "PushTask env s (task_reference_subtable t) q = Inr q1"
    and p2: "PushTask env (length (query_subtables q1) - 1) (task_reference_subtable t) q1
               = Inr q2"
    and rest: "split_push env s ts
                 (q2\<lparr>table_exchange :=
                        table_exchange q2 @ [LockCache (reference_subtable_cache_block_id t) 1]\<rparr>)
               = Inr q'"
    by (auto split: sum.splits)
  from acct_PushTask [OF acct_PushTask [OF Cons.prems(1) p1] p2]
  have "task_accounting
          (q2\<lparr>table_exchange :=
                 table_exchange q2 @ [LockCache (reference_subtable_cache_block_id t) 1]\<rparr>)"
    by (simp add: task_accounting_def)
  from Cons.IH [OF this rest] show ?case .
qed

lemma acct_split_subtree:
  assumes "task_accounting q" and "split_subtree env s q = Inr q'"
  shows "task_accounting q'"
proof -
  from assms(2) have s: "s < length (query_subtables q)"
    by (auto simp add: split_subtree_def split: if_splits)
  from assms(2) s obtain left right where
    c: "node_children (start_node (query_subtables q ! s)) = Some (left, right)"
    by (auto simp add: split_subtree_def split: option.splits)
  let ?L = "(query_subtables q ! s)\<lparr>start_node := left\<rparr>"
  let ?R = "(query_subtables q ! s)\<lparr>start_node := right\<rparr>"
  let ?q2 = "q\<lparr>query_subtables := (query_subtables q)[s := ?L] @ [?R]\<rparr>"
  from assms(1) have a2: "task_accounting ?q2"
    by (simp add: task_accounting_def)
  from assms(2) s c obtain prev q3 where
    d: "split_drain env s [] ?q2 = Inr (prev, q3)"
    by (auto simp add: split_subtree_def Let_def Alias_def split: sum.splits)
  from acct_split_drain [OF a2 d] have a3: "task_accounting q3" .
  from assms(2) s c d obtain ivs where
    p: "split_push env s prev
          (q3\<lparr>tasks := tasks q3 @ [[]],
              assigned_work := assigned_work q3 @ [Some ivs],
              remaining_work_for_query_subtables :=
                remaining_work_for_query_subtables q3
                  @ [remaining_work_for_query_subtables q3 ! s]\<rparr>) = Inr q'"
    by (auto simp add: split_subtree_def Let_def Alias_def split: if_splits option.splits)
  from a3 have "task_accounting
          (q3\<lparr>tasks := tasks q3 @ [[]],
              assigned_work := assigned_work q3 @ [Some ivs],
              remaining_work_for_query_subtables :=
                remaining_work_for_query_subtables q3
                  @ [remaining_work_for_query_subtables q3 ! s]\<rparr>)"
    by (simp add: task_accounting_def)
  from acct_split_push [OF this p] show ?thesis .
qed

lemma acct_RedistributeAmongCores:
  "task_accounting q \<Longrightarrow> RedistributeAmongCores env q = Inr q' \<Longrightarrow> task_accounting q'"
  by (auto simp add: RedistributeAmongCores_def dest: acct_split_subtree
      split: sum.splits if_splits)

lemma acct_DequeueTask_loop:
  "task_accounting q \<Longrightarrow>
   DequeueTask_loop env probe_index task_out handle c q = Inr (task_out', handle', q') \<Longrightarrow>
   task_accounting q'"
proof (induction env probe_index task_out handle c q rule: DequeueTask_loop.induct)
  case (1 env probe_index task_out handle c q)
  show ?case
  proof (cases "sint (snd task_out) < 0 \<and> probe_index < length (tasks q)")
    case False
    with "1.prems" show ?thesis
      by (subst (asm) DequeueTask_loop.simps) auto
  next
    case True
    with "1.prems"(2) obtain cleaned out1 h1 q1 where
      d: "DequeueTask_slot env probe_index task_out c q = Inr (cleaned, out1, h1, q1)"
      by (subst (asm) DequeueTask_loop.simps) (auto split: sum.splits)
    from acct_DequeueTask_slot [OF "1.prems"(1) d] have a1: "task_accounting q1" .
    show ?thesis
    proof (cases cleaned)
      case c: True
      from "1.prems"(2) True d c have
        "DequeueTask_loop env probe_index out1
           (case h1 of None \<Rightarrow> handle | Some h \<Rightarrow> Some h) c q1 = Inr (task_out', handle', q')"
        by (subst (asm) DequeueTask_loop.simps) simp
      from "1.IH"(1) [OF True d refl refl refl c a1 this] show ?thesis .
    next
      case c: False
      from "1.prems"(2) True d c have
        "DequeueTask_loop env (probe_index + 1) out1
           (case h1 of None \<Rightarrow> handle | Some h \<Rightarrow> Some h) c q1 = Inr (task_out', handle', q')"
        by (subst (asm) DequeueTask_loop.simps) simp
      from "1.IH"(2) [OF True d refl refl refl c a1 this] show ?thesis .
    qed
  qed
qed

lemma acct_DequeueTask:
  "task_accounting q \<Longrightarrow> DequeueTask env task_out c q = Inr (task_out', handle', q') \<Longrightarrow>
   task_accounting q'"
  by (auto simp add: DequeueTask_def dest: acct_RedistributeAmongCores acct_DequeueTask_loop
      split: if_splits sum.splits)

lemma acct_push_completed_computation:
  "task_accounting q \<Longrightarrow> push_completed_computation rc qty q = Inr q' \<Longrightarrow>
   task_accounting q'"
  by (auto simp add: task_accounting_def push_completed_computation_def Let_def
      split: if_splits)

lemma acct_push_completed_computation_lock:
  assumes "task_accounting q" and "push_completed_computation_lock rc qty k q = Inr q'"
  shows "task_accounting q'"
proof -
  let ?q1 = "q\<lparr>remaining_global_computation := remaining_global_computation q - qty,
               table_exchange := table_exchange q @ [ExchangePushCompletedComputation qty]\<rparr>"
  from assms(1) have a: "task_accounting ?q1"
    by (simp add: task_accounting_def)
  from assms(2) have k: "k < length (checked_out_query_subtables ?q1)"
    by (auto simp add: push_completed_computation_lock_def Let_def split: if_splits)
  from acct_checked_out_same_tasks [OF a k,
      of "(checked_out_query_subtables ?q1 ! k)
            \<lparr>lock_remaining_work_for_query_subtable :=
               lock_remaining_work_for_query_subtable (checked_out_query_subtables ?q1 ! k) - rc\<rparr>"]
    assms(2) k
  show ?thesis
    by (auto simp add: push_completed_computation_lock_def Let_def split: if_splits)
qed

lemma acct_run:
  assumes "task_accounting q" and "\<not> sets_local_computation c" and "run env c q = Inr q'"
  shows "task_accounting q'"
proof (cases c)
  case (CallInit frontier lqr tq tr nt)
  with assms show ?thesis by simp
next
  case (CallPushNewQueue fresh r t)
  with assms show ?thesis by (auto dest: acct_PushNewQueue)
next
  case (CallPushTask i ref)
  with assms show ?thesis by (auto dest: acct_PushTask)
next
  case (CallGenerateTasks ids)
  with assms show ?thesis by (auto dest: acct_GenerateTasks)
next
  case (CallDequeueTask task_out c)
  with assms show ?thesis by (auto dest: acct_DequeueTask split: sum.splits)
next
  case (CallDequeueTask_slot i task_out c)
  with assms show ?thesis by (auto dest: acct_DequeueTask_slot split: sum.splits)
next
  case (CallPop i)
  with assms show ?thesis by (auto dest: acct_pop)
next
  case (CallLockQuerySubTable i r)
  with assms show ?thesis by (auto dest: acct_LockQuerySubTable split: sum.splits)
next
  case (CallReturnQuerySubTable k)
  with assms show ?thesis by (auto dest: acct_ReturnQuerySubTable)
next
  case (CallSynchronize t)
  with assms show ?thesis by (auto dest: acct_Synchronize)
next
  case (CallPushCompletedComputation rc qty)
  with assms show ?thesis by (auto dest: acct_push_completed_computation)
next
  case (CallPushCompletedComputationLock rc qty k)
  with assms show ?thesis by (auto dest: acct_push_completed_computation_lock)
next
  case (CallDecrementRemainingLocalComputation d)
  with assms show ?thesis by simp
next
  case (CallDecrementRemainingGlobalComputation d)
  with assms show ?thesis
    by (auto simp add: task_accounting_def decrement_remaining_global_computation_def)
qed

lemma acct_runs:
  "task_accounting q \<Longrightarrow> \<not> list_ex sets_local_computation cs \<Longrightarrow> runs env cs q = Inr q' \<Longrightarrow>
   task_accounting q'"
  by (induction cs arbitrary: q) (auto dest: acct_run split: sum.splits)

lemma acct_Constructor: "task_accounting Constructor"
  by (simp add: task_accounting_def Constructor_def)

lemma acct_Init_iff:
  "task_accounting (Init frontier lqr tq tr nt q0) \<longleftrightarrow>
     (of_nat (sum_list (map (\<lambda>e. length (lock_task e)) (checked_out_query_subtables q0)))
        = (0::i32) \<and>
      sum_list (map (\<lambda>e. sum_list (map work (lock_task e))) (checked_out_query_subtables q0))
        = 0)"
  by (auto simp add: task_accounting_def Init_def sum_list_replicate)

lemma acct_Init:
  assumes "\<forall>e\<in>set (checked_out_query_subtables q0). lock_task e = []"
  shows "task_accounting (Init frontier lqr tq tr nt q0)"
proof -
  have a: "sum_list (map (\<lambda>e. length (lock_task e)) (checked_out_query_subtables q0)) = 0"
    using assms by (intro sum_list_map_zero) simp
  have b: "sum_list (map (\<lambda>e. sum_list (map work (lock_task e)))
                      (checked_out_query_subtables q0)) = 0"
    using assms by (intro sum_list_map_zero) simp
  show ?thesis by (simp add: acct_Init_iff a b)
qed

lemma acct_decrement_remaining_local_computation:
  assumes "task_accounting q" and "d \<noteq> 0"
  shows "\<not> task_accounting (decrement_remaining_local_computation d q)"
  using assms
  by (auto simp add: task_accounting_def decrement_remaining_local_computation_def)

text \<open>
  C1, as the code has it. The task accounting (the number of remaining tasks is,
  modulo \<open>2 ^ 32\<close>, the sum of the sizes of all heaps, active and checked out; the
  remaining local computation is, modulo \<open>2 ^ 64\<close>, the sum of the work of their
  tasks) is kept by these calls from outside: \<^verbatim>\<open>PushNewQueue\<close>, \<^verbatim>\<open>PushTask\<close>,
  \<^verbatim>\<open>GenerateTasks\<close>, both forms of \<^verbatim>\<open>DequeueTask\<close>, \<^verbatim>\<open>pop\<close>,
  \<^verbatim>\<open>LockQuerySubTable\<close>, \<^verbatim>\<open>ReturnQuerySubTable\<close>, \<^verbatim>\<open>Synchronize\<close>, both
  forms of \<^verbatim>\<open>push_completed_computation\<close> and
  \<^verbatim>\<open>decrement_remaining_global_computation\<close>; and by \<^verbatim>\<open>split_subtree_\<close>. It
  holds in the constructed queue, and after \<^verbatim>\<open>Init\<close> when no checked-out entry
  holds a task. So it holds in every state these calls reach from there. Two calls
  from outside break it: \<^verbatim>\<open>decrement_remaining_local_computation\<close> with a
  decrement other than 0, and \<^verbatim>\<open>Init\<close> on a queue whose checked-out entries hold
  tasks (their sizes or their work not summing to 0), since it sets both counters to 0
  and leaves the list of checked-out entries as it is.
\<close>

theorem task_accounting_invariant:
  assumes "task_accounting q"
  shows
    "(\<forall>q'. \<not> sets_local_computation c \<longrightarrow> run env c q = Inr q' \<longrightarrow> task_accounting q') \<and>
     (\<forall>q'. split_subtree env s q = Inr q' \<longrightarrow> task_accounting q') \<and>
     (\<forall>q'. \<not> list_ex sets_local_computation cs \<longrightarrow> runs env cs q = Inr q' \<longrightarrow>
        task_accounting q') \<and>
     (\<forall>q'. \<not> list_ex sets_local_computation cs \<longrightarrow> runs env cs Constructor = Inr q' \<longrightarrow>
        task_accounting q') \<and>
     (\<forall>q0 q'. (\<forall>e\<in>set (checked_out_query_subtables q0). lock_task e = []) \<longrightarrow>
        \<not> list_ex sets_local_computation cs \<longrightarrow>
        runs env cs (Init frontier lqr tq tr nt q0) = Inr q' \<longrightarrow> task_accounting q') \<and>
     (d \<noteq> 0 \<longrightarrow> \<not> task_accounting (decrement_remaining_local_computation d q)) \<and>
     (task_accounting (Init frontier lqr tq tr nt q) \<longleftrightarrow>
        of_nat (sum_list (map (\<lambda>e. length (lock_task e)) (checked_out_query_subtables q)))
          = (0::i32) \<and>
        sum_list (map (\<lambda>e. sum_list (map work (lock_task e))) (checked_out_query_subtables q))
          = 0)"
proof (intro conjI allI impI)
  show "\<And>q'. \<not> sets_local_computation c \<Longrightarrow> run env c q = Inr q' \<Longrightarrow> task_accounting q'"
    by (rule acct_run [OF assms])
  show "\<And>q'. split_subtree env s q = Inr q' \<Longrightarrow> task_accounting q'"
    by (rule acct_split_subtree [OF assms])
  show "\<And>q'. \<not> list_ex sets_local_computation cs \<Longrightarrow> runs env cs q = Inr q' \<Longrightarrow>
        task_accounting q'"
    by (rule acct_runs [OF assms])
  show "\<And>q'. \<not> list_ex sets_local_computation cs \<Longrightarrow> runs env cs Constructor = Inr q' \<Longrightarrow>
        task_accounting q'"
    by (rule acct_runs [OF acct_Constructor])
  show "\<And>q0 q'. \<forall>e\<in>set (checked_out_query_subtables q0). lock_task e = [] \<Longrightarrow>
        \<not> list_ex sets_local_computation cs \<Longrightarrow>
        runs env cs (Init frontier lqr tq tr nt q0) = Inr q' \<Longrightarrow> task_accounting q'"
    by (rule acct_runs [OF acct_Init])
  show "d \<noteq> 0 \<Longrightarrow> \<not> task_accounting (decrement_remaining_local_computation d q)"
    by (rule acct_decrement_remaining_local_computation [OF assms])
  show "task_accounting (Init frontier lqr tq tr nt q) \<longleftrightarrow>
        of_nat (sum_list (map (\<lambda>e. length (lock_task e)) (checked_out_query_subtables q)))
          = (0::i32) \<and>
        sum_list (map (\<lambda>e. sum_list (map work (lock_task e))) (checked_out_query_subtables q))
          = 0"
    by (rule acct_Init_iff)
qed

text \<open>
  The sequence of calls above runs through on the initialised queue and ends with heaps
  of one and two tasks, three remaining tasks and a remaining local computation of 7.
\<close>

theorem task_accounting_invariant_witness:
  "task_accounting ex_queue_task \<and>
   \<not> list_ex sets_local_computation ex_calls \<and>
   isl (runs ex_env ex_calls (Init [ex_query] 0 2 3 2 Constructor)) = False \<and>
   task_accounting (projr (runs ex_env ex_calls (Init [ex_query] 0 2 3 2 Constructor))) \<and>
   map length (tasks (projr (runs ex_env ex_calls (Init [ex_query] 0 2 3 2 Constructor))))
     = [1, 2] \<and>
   num_remaining_tasks (projr (runs ex_env ex_calls (Init [ex_query] 0 2 3 2 Constructor)))
     = 3 \<and>
   remaining_local_computation
     (projr (runs ex_env ex_calls (Init [ex_query] 0 2 3 2 Constructor))) = 7 \<and>
   \<not> task_accounting (decrement_remaining_local_computation 6 ex_queue_task)"
proof -
  have a: "task_accounting ex_queue_task"
    by (simp add: task_accounting_def ex_queue_task_def ex_queue_def Constructor_def
          work_def ex_defs)
  have n: "\<not> list_ex sets_local_computation ex_calls"
    by (simp add: ex_calls_def)
  have e: "\<forall>e\<in>set (checked_out_query_subtables Constructor). lock_task e = []"
    by (simp add: Constructor_def)
  have i: "isl (runs ex_env ex_calls (Init [ex_query] 0 2 3 2 Constructor)) = False"
    by code_simp
  then have r: "runs ex_env ex_calls (Init [ex_query] 0 2 3 2 Constructor)
                  = Inr (projr (runs ex_env ex_calls (Init [ex_query] 0 2 3 2 Constructor)))"
    by (cases "runs ex_env ex_calls (Init [ex_query] 0 2 3 2 Constructor)") simp_all
  note t = task_accounting_invariant [OF a, where env = ex_env and cs = ex_calls
      and frontier = "[ex_query]" and lqr = 0 and tq = 2 and tr = 3 and nt = 2 and d = 6]
  from t e n r
  have "task_accounting (projr (runs ex_env ex_calls (Init [ex_query] 0 2 3 2 Constructor)))"
    by blast
  moreover have
    "map length (tasks (projr (runs ex_env ex_calls (Init [ex_query] 0 2 3 2 Constructor))))
       = [1, 2]"
    by code_simp
  moreover have
    "num_remaining_tasks (projr (runs ex_env ex_calls (Init [ex_query] 0 2 3 2 Constructor)))
       = 3"
    by code_simp
  moreover have
    "remaining_local_computation
       (projr (runs ex_env ex_calls (Init [ex_query] 0 2 3 2 Constructor))) = 7"
    by code_simp
  moreover from t have "\<not> task_accounting (decrement_remaining_local_computation 6 ex_queue_task)"
    by simp
  ultimately show ?thesis using a n i by blast
qed

text \<open>
  C1 as stated fails. The queue with one task of work 6 is reached by \<^verbatim>\<open>Init\<close> and
  \<^verbatim>\<open>GenerateTasks\<close> and the accounting holds in it; after
  \<^verbatim>\<open>decrement_remaining_local_computation(6)\<close> the task is still in its heap and
  the remaining local computation is 0. When instead the slot is locked for process 1,
  the accounting holds with the task in the checked-out entry's heap; after a second
  \<^verbatim>\<open>Init\<close> the entry still holds the task and both counters are 0.
\<close>

theorem task_accounting_counterexample:
  "runs ex_env [CallInit [ex_query] 0 2 3 1, CallGenerateTasks [(0, 0, 3, 42)]] Constructor
     = Inr ex_queue_task \<and>
   task_accounting ex_queue_task \<and>
   run ex_env (CallDecrementRemainingLocalComputation 6) ex_queue_task
     = Inr (ex_queue_task\<lparr>remaining_local_computation := 0\<rparr>) \<and>
   num_remaining_tasks (ex_queue_task\<lparr>remaining_local_computation := 0\<rparr>) = 1 \<and>
   tasks (ex_queue_task\<lparr>remaining_local_computation := 0\<rparr>) = [[ex_task]] \<and>
   work ex_task = 6 \<and>
   \<not> task_accounting (ex_queue_task\<lparr>remaining_local_computation := 0\<rparr>) \<and>
   run ex_env (CallLockQuerySubTable 0 1) ex_queue_task = Inr ex_queue_exported \<and>
   task_accounting ex_queue_exported \<and>
   run ex_env (CallInit [ex_query] 0 2 3 1) ex_queue_exported
     = Inr (ex_queue_exported
              \<lparr>assigned_work := [Some []], query_subtables := [ex_query],
               remaining_work_for_query_subtables := [3], tasks := [[]],
               num_remaining_tasks := 0, remaining_local_computation := 0\<rparr>) \<and>
   map lock_task (checked_out_query_subtables ex_queue_exported) = [[ex_task]] \<and>
   \<not> task_accounting
       (ex_queue_exported
          \<lparr>assigned_work := [Some []], query_subtables := [ex_query],
           remaining_work_for_query_subtables := [3], tasks := [[]],
           num_remaining_tasks := 0, remaining_local_computation := 0\<rparr>)"
proof -
  have w: "work ex_task = 6"
    by (simp add: work_def ex_defs)
  have g: "GenerateTasks ex_env [(0, 0, 3, 42)] ex_queue = Inr ex_queue_task"
    by code_simp
  have i: "Init [ex_query] 0 2 3 1 Constructor = ex_queue"
    by (simp add: Init_def ex_queue_def Constructor_def ex_query_def)
  have 1: "runs ex_env [CallInit [ex_query] 0 2 3 1, CallGenerateTasks [(0, 0, 3, 42)]]
             Constructor = Inr ex_queue_task"
    by (simp add: i g del: GenerateTasks.simps)
  have 2: "task_accounting ex_queue_task"
    by (simp add: task_accounting_def ex_queue_task_def ex_queue_def Constructor_def w)
  have 3: "run ex_env (CallDecrementRemainingLocalComputation 6) ex_queue_task
     = Inr (ex_queue_task\<lparr>remaining_local_computation := 0\<rparr>)"
    by (simp add: decrement_remaining_local_computation_def ex_queue_task_def)
  have 4: "num_remaining_tasks (ex_queue_task\<lparr>remaining_local_computation := 0\<rparr>) = 1"
    "tasks (ex_queue_task\<lparr>remaining_local_computation := 0\<rparr>) = [[ex_task]]"
    by (simp_all add: ex_queue_task_def)
  have 5: "\<not> task_accounting (ex_queue_task\<lparr>remaining_local_computation := 0\<rparr>)"
    by (simp add: task_accounting_def ex_queue_task_def ex_queue_def Constructor_def w)
  have 6: "run ex_env (CallLockQuerySubTable 0 1) ex_queue_task = Inr ex_queue_exported"
    by (simp add: LockQuerySubTable_def CheckOut_def Evict_def swap_with_last_def
          ex_queue_exported_def ex_queue_task_def ex_queue_def Constructor_def)
  have 7: "task_accounting ex_queue_exported"
    by (simp add: task_accounting_def ex_queue_exported_def Constructor_def w)
  have 8: "run ex_env (CallInit [ex_query] 0 2 3 1) ex_queue_exported
     = Inr (ex_queue_exported
              \<lparr>assigned_work := [Some []], query_subtables := [ex_query],
               remaining_work_for_query_subtables := [3], tasks := [[]],
               num_remaining_tasks := 0, remaining_local_computation := 0\<rparr>)"
    by (simp add: Init_def ex_queue_exported_def Constructor_def ex_query_def)
  have 9: "map lock_task (checked_out_query_subtables ex_queue_exported) = [[ex_task]]"
    by (simp add: ex_queue_exported_def)
  have 10: "\<not> task_accounting
       (ex_queue_exported
          \<lparr>assigned_work := [Some []], query_subtables := [ex_query],
           remaining_work_for_query_subtables := [3], tasks := [[]],
           num_remaining_tasks := 0, remaining_local_computation := 0\<rparr>)"
    by (simp add: task_accounting_def ex_queue_exported_def Constructor_def w)
  from 1 2 3 4 w 5 6 7 8 9 10 show ?thesis by simp
qed

subsection \<open>Replaying a reference block\<close>
























end
